theory Spec2Isabelle
  imports Complex_Main "HOL-Library.FSet" "HOL-Library.List_Lexorder" "HOL-Library.Char_ord"
    "HOL-Library.Sublist"
begin

section \<open>Replica placement planner: clustering/administration/tables/generate_config.cc\<close>

text \<open>
  The planner is embedded function by function. Conventions:
  \<^item> \<open>size_t\<close> values are \<open>nat\<close>: every size that occurs is bounded by the size of a
    container held in memory, so no product or sum in the planner reaches \<open>2^64\<close>;
    \<open>int\<close> usage costs are \<open>int\<close>.
  \<^item> \<open>double\<close> is \<open>real\<close>. The backfill costs that occur are 0, 3 and quotients of a sum of
    values in 0..3 by a positive count; the only rounding the machine performs is in that
    final division, and it is not modelled.
  \<^item> \<open>name_string_t\<close> is \<open>string\<close> with the lexicographic byte order, \<open>c_str()\<close> is the
    string itself.
  \<^item> \<open>std::map\<close> and \<open>std::set\<close> that are iterated are lists in iteration order (ascending
    keys); \<open>std::multiset\<close> is a list in iteration order, with insertion at the upper
    bound of the equivalent elements.
  \<^item> A thrown exception, a failed \<open>guarantee\<close> and undefined behaviour are values of
    type \<open>error\<close>; a function that can fail returns \<open>error + 'a\<close>.
\<close>

type_synonym name_string_t = string
type_synonym ticks_t = nat
type_synonym uuid_u = nat
type_synonym namespace_id_t = uuid_u
type_synonym machine_id_t = uuid_u
type_synonym peer_id_t = uuid_u

definition nil_uuid :: uuid_u where
  "nil_uuid = 0"

datatype error =
    Interrupted            \<comment> \<open>\<open>interrupted_exc_t\<close>, thrown by \<open>maybe_yield\<close>\<close>
  | Guarantee_failed       \<comment> \<open>a failed \<open>guarantee\<close> or a reached \<open>unreachable()\<close>\<close>
  | Undefined_behaviour    \<comment> \<open>dereferencing \<open>end()\<close>, indexing a vector out of range\<close>
  | Out_of_range           \<comment> \<open>\<open>std::out_of_range\<close>, thrown by \<open>std::map::at\<close>\<close>
  | Not_a_number           \<comment> \<open>the quotient \<open>0.0 / 0\<close>, which \<open>real\<close> cannot hold\<close>

subsection \<open>Containers\<close>

text \<open>\<open>std::multiset::insert\<close> under a comparison \<open>lt\<close>: the new element goes behind every
  element that is not greater, so equivalent elements stay in insertion order.\<close>

fun multiset_insert :: "('a \<Rightarrow> 'a \<Rightarrow> bool) \<Rightarrow> 'a \<Rightarrow> 'a list \<Rightarrow> 'a list" where
  "multiset_insert lt x [] = [x]"
| "multiset_insert lt x (y # ys) =
     (if lt x y then x # y # ys else y # multiset_insert lt x ys)"

text \<open>\<open>std::map::insert\<close>: no effect when the key is present.\<close>

fun map_insert :: "'k::linorder \<Rightarrow> 'v \<Rightarrow> ('k \<times> 'v) list \<Rightarrow> ('k \<times> 'v) list" where
  "map_insert k v [] = [(k, v)]"
| "map_insert k v ((k', v') # m) =
     (if k = k' then (k', v') # m
      else if k < k' then (k, v) # (k', v') # m
      else (k', v') # map_insert k v m)"

text \<open>\<open>m[k] = v\<close>: the entry is created or overwritten.\<close>

fun map_assign :: "'k::linorder \<Rightarrow> 'v \<Rightarrow> ('k \<times> 'v) list \<Rightarrow> ('k \<times> 'v) list" where
  "map_assign k v [] = [(k, v)]"
| "map_assign k v ((k', v') # m) =
     (if k = k' then (k, v) # m
      else if k < k' then (k, v) # (k', v') # m
      else (k', v') # map_assign k v m)"

text \<open>\<open>std::map::at\<close> throws on a missing key.\<close>

definition map_at :: "('k \<times> 'v) list \<Rightarrow> 'k \<Rightarrow> error + 'v" where
  "map_at m k = (case map_of m k of None \<Rightarrow> Inl Out_of_range | Some v \<Rightarrow> Inr v)"

text \<open>\<open>std::set::insert\<close> on a set kept as an ascending list.\<close>

fun set_insert :: "'a::linorder \<Rightarrow> 'a list \<Rightarrow> 'a list" where
  "set_insert x [] = [x]"
| "set_insert x (y # ys) =
     (if x = y then y # ys else if x < y then x # y # ys else y # set_insert x ys)"

subsection \<open>long\_calculation\_yielder\_t\<close>

text \<open>
  The planner reads two things from its environment while it runs: the clock and the
  interruptor. \<open>get_ticks k\<close> is the value of the \<open>k\<close>-th reading of the clock (the
  constructor of the yielder makes reading 0), \<open>is_pulsed k\<close> the answer of the
  interruptor when \<open>maybe_yield\<close> polls it for the \<open>k\<close>-th time. \<open>coro_t::yield()\<close> changes
  no data of the planner.
\<close>

record environment =
  get_ticks :: "nat \<Rightarrow> ticks_t"
  is_pulsed :: "nat \<Rightarrow> bool"

record long_calculation_yielder_t =
  last_yield :: ticks_t   \<comment> \<open>the field \<open>t\<close>\<close>
  polls :: nat   \<comment> \<open>the number of calls of \<open>maybe_yield\<close> made so far\<close>

text \<open>Modelled from the spec: \<open>secs_to_ticks(0.01)\<close>, the 10 ms between two yields, in
  ticks of one nanosecond (the function is declared outside this file).\<close>

definition secs_to_ticks_10ms :: ticks_t where
  "secs_to_ticks_10ms = 10000000"

definition new_yielder :: "environment \<Rightarrow> long_calculation_yielder_t" where
  "new_yielder env = \<lparr>last_yield = get_ticks env 0, polls = 0\<rparr>"

definition maybe_yield ::
  "environment \<Rightarrow> long_calculation_yielder_t \<Rightarrow> error + long_calculation_yielder_t" where
  "maybe_yield env y =
     (let now = get_ticks env (Suc (polls y));
          y1 = (if now > last_yield y + secs_to_ticks_10ms then y\<lparr>last_yield := now\<rparr> else y)
      in if is_pulsed env (polls y) then Inl Interrupted
         else Inr (y1\<lparr>polls := Suc (polls y)\<rparr>))"

subsection \<open>Pairings and their orders\<close>

record pairing_t =
  backfill_cost :: real
  shard :: nat

record server_pairings_t =
  self_usage_cost :: int
  pairings :: "pairing_t list"     \<comment> \<open>\<open>std::multiset<pairing_t>\<close> in iteration order\<close>
  other_usage_cost :: int
  server :: name_string_t

text \<open>\<open>operator<(pairing_t, pairing_t)\<close>\<close>

definition pairing_less :: "pairing_t \<Rightarrow> pairing_t \<Rightarrow> bool" where
  "pairing_less x y = (backfill_cost x < backfill_cost y)"

text \<open>\<open>operator<\<close> on counted server pairings; the two \<open>guarantee\<close>s come first.\<close>

definition server_pairings_less ::
  "server_pairings_t \<Rightarrow> server_pairings_t \<Rightarrow> error + bool" where
  "server_pairings_less x y =
     (case pairings x of [] \<Rightarrow> Inl Guarantee_failed
      | px # _ \<Rightarrow>
        (case pairings y of [] \<Rightarrow> Inl Guarantee_failed
         | py # _ \<Rightarrow>
           Inr (if self_usage_cost x < self_usage_cost y then True
                else if self_usage_cost x > self_usage_cost y then False
                else if pairing_less px py then True
                else if pairing_less py px then False
                else other_usage_cost x < other_usage_cost y)))"

text \<open>
  Insertion into the multiset of server pairings. The comparison can fail, so the
  insertion can. The new element is compared with the elements from the front up to the
  first greater one; the tree of the library compares it with the elements on one path
  only, which makes no difference as long as no element is empty, and the planner puts
  no empty element into a multiset.
\<close>

fun insert_server_pairings ::
  "server_pairings_t \<Rightarrow> server_pairings_t list \<Rightarrow> error + server_pairings_t list" where
  "insert_server_pairings x [] = Inr [x]"
| "insert_server_pairings x (y # ys) =
     (case server_pairings_less x y of
        Inl e \<Rightarrow> Inl e
      | Inr True \<Rightarrow> Inr (x # y # ys)
      | Inr False \<Rightarrow>
          (case insert_server_pairings x ys of
             Inl e \<Rightarrow> Inl e
           | Inr zs \<Rightarrow> Inr (y # zs)))"

subsection \<open>pick\_best\_pairings\<close>

text \<open>
  The state of the \<open>while\<close> loop: the per-shard counters, the global counter, the multiset
  of server pairings, whatever the callback changes, and the yielder.
\<close>

record 'st pick_state =
  shard_replicas :: "nat list"
  total_replicas :: nat
  remaining :: "server_pairings_t list"
  cb_state :: 'st
  yielder :: long_calculation_yielder_t

text \<open>Lines 216 to 221: the placement, when the shard of the pairing is not yet full.\<close>

definition place_if_room ::
  "nat \<Rightarrow> int \<Rightarrow> (nat \<Rightarrow> name_string_t \<Rightarrow> 'st \<Rightarrow> error + 'st) \<Rightarrow> 'st pick_state \<Rightarrow>
   server_pairings_t \<Rightarrow> pairing_t \<Rightarrow> error + 'st pick_state \<times> server_pairings_t" where
  "place_if_room num_replicas usage_cost callback s sp p =
     (if shard_replicas s ! shard p < num_replicas
      then (case callback (shard p) (server sp) (cb_state s) of
              Inl e \<Rightarrow> Inl e
            | Inr st \<Rightarrow>
                Inr (s\<lparr>shard_replicas :=
                          (shard_replicas s)[shard p := Suc (shard_replicas s ! shard p)],
                        total_replicas := Suc (total_replicas s),
                        cb_state := st\<rparr>,
                     sp\<lparr>self_usage_cost := self_usage_cost sp + usage_cost\<rparr>))
      else Inr (s, sp))"

text \<open>Lines 222 to 225: the pairing is erased (\<open>ps\<close> are the pairings left), and the server
  pairings go back into the multiset unless they are empty.\<close>

definition put_back ::
  "server_pairings_t \<Rightarrow> pairing_t list \<Rightarrow> server_pairings_t list \<Rightarrow>
   error + server_pairings_t list" where
  "put_back sp ps rest =
     (if ps \<noteq> [] then insert_server_pairings (sp\<lparr>pairings := ps\<rparr>) rest else Inr rest)"

text \<open>One pass through the body of the loop.\<close>

definition pick_body ::
  "environment \<Rightarrow> nat \<Rightarrow> int \<Rightarrow> (nat \<Rightarrow> name_string_t \<Rightarrow> 'st \<Rightarrow> error + 'st) \<Rightarrow>
   'st pick_state \<Rightarrow> error + 'st pick_state" where
  "pick_body env num_replicas usage_cost callback s =
     (case remaining s of
        [] \<Rightarrow> Inl Undefined_behaviour
      | sp # rest \<Rightarrow>
        (case pairings sp of
           [] \<Rightarrow> Inl Undefined_behaviour
         | p # ps \<Rightarrow>
           if shard p \<ge> length (shard_replicas s) then Inl Undefined_behaviour
           else
             (case place_if_room num_replicas usage_cost callback s sp p of
                Inl e \<Rightarrow> Inl e
              | Inr placed \<Rightarrow>
                (case put_back (snd placed) ps rest of
                   Inl e \<Rightarrow> Inl e
                 | Inr prs \<Rightarrow>
                   (case maybe_yield env (yielder (fst placed)) of
                      Inl e \<Rightarrow> Inl e
                    | Inr y \<Rightarrow> Inr ((fst placed)\<lparr>remaining := prs, yielder := y\<rparr>))))))"

definition pairings_left :: "server_pairings_t list \<Rightarrow> nat" where
  "pairings_left prs = sum_list (map (\<lambda>sp. length (pairings sp)) prs)"

lemma insert_server_pairings_left:
  "insert_server_pairings x ys = Inr zs \<Longrightarrow>
     pairings_left zs = pairings_left ys + length (pairings x)"
proof (induction ys arbitrary: zs)
  case Nil
  then show ?case by (auto simp: pairings_left_def)
next
  case (Cons y ys)
  then show ?case
    by (auto simp: pairings_left_def split: sum.splits bool.splits)
qed

lemma put_back_left:
  "put_back sp ps rest = Inr prs \<Longrightarrow> pairings_left prs = pairings_left rest + length ps"
  unfolding put_back_def
  by (cases "ps = []") (auto dest: insert_server_pairings_left)

lemma pick_body_decreases:
  assumes "pick_body env num_replicas usage_cost callback s = Inr s'"
  shows "pairings_left (remaining s') < pairings_left (remaining s)"
proof (cases "remaining s")
  case Nil
  with assms show ?thesis by (simp add: pick_body_def)
next
  case (Cons sp rest)
  note r = Cons
  show ?thesis
  proof (cases "pairings sp")
    case Nil
    with assms r show ?thesis by (simp add: pick_body_def)
  next
    case (Cons p ps)
    note p = Cons
    show ?thesis
    proof (cases "place_if_room num_replicas usage_cost callback s sp p")
      case (Inl e)
      with assms r p show ?thesis by (simp add: pick_body_def split: if_splits)
    next
      case (Inr placed)
      note pl = Inr
      show ?thesis
      proof (cases "put_back (snd placed) ps rest")
        case (Inl e)
        with assms r p pl show ?thesis by (simp add: pick_body_def split: if_splits)
      next
        case (Inr prs)
        from put_back_left [OF Inr] have "pairings_left prs = pairings_left rest + length ps" .
        moreover have "pairings_left (remaining s) = pairings_left rest + Suc (length ps)"
          using r p by (simp add: pairings_left_def)
        moreover have "remaining s' = prs"
          using assms r p pl Inr
          by (cases "maybe_yield env (yielder (fst placed))")
             (auto simp: pick_body_def split: if_splits)
        ultimately show ?thesis by simp
      qed
    qed
  qed
qed

function pick_loop ::
  "environment \<Rightarrow> nat \<Rightarrow> nat \<Rightarrow> int \<Rightarrow> (nat \<Rightarrow> name_string_t \<Rightarrow> 'st \<Rightarrow> error + 'st) \<Rightarrow>
   'st pick_state \<Rightarrow> error + 'st pick_state" where
  "pick_loop env num_shards num_replicas usage_cost callback s =
     (if total_replicas s < num_shards * num_replicas
      then (case pick_body env num_replicas usage_cost callback s of
              Inl e \<Rightarrow> Inl e
            | Inr s' \<Rightarrow> pick_loop env num_shards num_replicas usage_cost callback s')
      else Inr s)"
  by pat_completeness auto
termination
  by (relation "measure (\<lambda>(env, n, r, u, cb, s). pairings_left (remaining s))")
     (auto dest: pick_body_decreases)

declare pick_loop.simps [simp del]

definition pick_best_pairings ::
  "environment \<Rightarrow> nat \<Rightarrow> nat \<Rightarrow> server_pairings_t list \<Rightarrow> int \<Rightarrow>
   long_calculation_yielder_t \<Rightarrow> (nat \<Rightarrow> name_string_t \<Rightarrow> 'st \<Rightarrow> error + 'st) \<Rightarrow> 'st \<Rightarrow>
   error + ('st \<times> long_calculation_yielder_t)" where
  "pick_best_pairings env num_shards num_replicas prs usage_cost y callback st =
     (case pick_loop env num_shards num_replicas usage_cost callback
             \<lparr>shard_replicas = replicate num_shards 0, total_replicas = 0,
              remaining = prs, cb_state = st, yielder = y\<rparr> of
        Inl e \<Rightarrow> Inl e
      | Inr s \<Rightarrow> Inr (cb_state s, yielder s))"

subsection \<open>Formatting\<close>

text \<open>\<open>%zu\<close> of \<open>strprintf\<close>: a size in decimal.\<close>

fun string_of_size :: "nat \<Rightarrow> string" where
  "string_of_size n =
     (if n < 10 then [char_of (48 + n)]
      else string_of_size (n div 10) @ [char_of (48 + n mod 10)])"

declare string_of_size.simps [simp del]

subsection \<open>validate\_params\<close>

record table_generate_config_params_t =
  num_shards :: nat
  num_replicas :: "(name_string_t \<times> nat) list"   \<comment> \<open>\<open>std::map\<close> in iteration order\<close>
  director_tag :: name_string_t

definition overlap_message :: "name_string_t \<Rightarrow> name_string_t \<Rightarrow> name_string_t \<Rightarrow> string" where
  "overlap_message tag1 tag2 name =
     ''Server tags `'' @ tag1 @ ''` and `'' @ tag2 @ ''` overlap; both contain server `''
       @ name @ ''`. The server tags used for replication settings for a given table ''
       @ ''must be non-overlapping.''"

text \<open>The inner loop over the servers of one tag; \<open>Inl\<close> is the message of the overlap.\<close>

fun claim_servers ::
  "name_string_t \<Rightarrow> name_string_t list \<Rightarrow> (name_string_t \<times> name_string_t) list \<Rightarrow>
   string + (name_string_t \<times> name_string_t) list" where
  "claim_servers tag [] servers_claimed = Inr servers_claimed"
| "claim_servers tag (name # names) servers_claimed =
     (case map_of servers_claimed name of
        None \<Rightarrow> claim_servers tag names (map_insert name tag servers_claimed)
      | Some other \<Rightarrow> Inl (overlap_message tag other name))"

text \<open>The outer loop over \<open>params.num_replicas\<close>. The result \<open>Some msg\<close> stands for
  \<open>*error_out = msg; return false\<close>, \<open>None\<close> for \<open>return true\<close>.\<close>

fun check_overlap ::
  "(name_string_t \<times> nat) list \<Rightarrow> (name_string_t \<times> name_string_t list) list \<Rightarrow>
   (name_string_t \<times> name_string_t) list \<Rightarrow> error + string option" where
  "check_overlap [] servers_with_tags servers_claimed = Inr None"
| "check_overlap ((tag, cnt) # rest) servers_with_tags servers_claimed =
     (if cnt = 0 then check_overlap rest servers_with_tags servers_claimed
      else
        (case map_at servers_with_tags tag of
           Inl e \<Rightarrow> Inl e
         | Inr names \<Rightarrow>
           (case claim_servers tag names servers_claimed of
              Inl msg \<Rightarrow> Inr (Some msg)
            | Inr claimed \<Rightarrow> check_overlap rest servers_with_tags claimed)))"

definition max_shards :: nat where
  "max_shards = 32"

definition validate_params ::
  "table_generate_config_params_t \<Rightarrow> (name_string_t \<times> name_string_t list) list \<Rightarrow>
   error + string option" where
  "validate_params params servers_with_tags =
     (if num_shards params \<le> 0 then
        Inr (Some ''Every table must have at least one shard.'')
      else if num_shards params > max_shards then
        Inr (Some (''Maximum number of shards is '' @ string_of_size max_shards @ ''.''))
      else if map_of (num_replicas params) (director_tag params) = None
              \<or> map_of (num_replicas params) (director_tag params) = Some 0 then
        Inr (Some (''Can't use server tag `'' @ director_tag params
                   @ ''` for directors because you specified no replicas in server tag `''
                   @ director_tag params @ ''`.''))
      else check_overlap (num_replicas params) servers_with_tags [])"

subsection \<open>estimate\_cost\_to\_get\_up\_to\_date\<close>

text \<open>
  The eight alternatives of \<open>reactor_business_card_t::activity_t\<close>, without their payloads.
  The variant is closed, so the final \<open>unreachable()\<close> of the chain of \<open>boost::get\<close> tests has
  no counterpart.
\<close>

datatype activity_t =
    primary_when_safe_t
  | primary_t
  | secondary_up_to_date_t
  | secondary_without_primary_t
  | secondary_backfilling_t
  | nothing_when_safe_t
  | nothing_when_done_erasing_t
  | nothing_t

record 'r activity_entry_t =
  region :: 'r
  activity :: activity_t

text \<open>The activities of a business card, in the iteration order of its activity map.\<close>

type_synonym 'r reactor_business_card_t = "'r activity_entry_t list"

text \<open>
  Regions and region maps are declared outside this file. The operations the estimator
  calls are taken as parameters: the intersection of two regions, the emptiness test, and
  \<open>region_map_t<double>::set\<close>. A region map is the list of its pieces, each a region with
  a value, as the iteration over it yields them.

  Modelled from the spec: the constructor \<open>region_map_t<double>(shard, 3)\<close> gives the map
  over the target range initialised to 3, a single piece.
\<close>

record 'r region_ops =
  region_intersection :: "'r \<Rightarrow> 'r \<Rightarrow> 'r"
  region_is_empty :: "'r \<Rightarrow> bool"
  region_map_set :: "('r \<times> real) list \<Rightarrow> 'r \<Rightarrow> real \<Rightarrow> ('r \<times> real) list"

definition new_region_map :: "'r \<Rightarrow> real \<Rightarrow> ('r \<times> real) list" where
  "new_region_map r v = [(r, v)]"

definition activity_cost :: "activity_t \<Rightarrow> int" where
  "activity_cost a =
     (case a of
        primary_when_safe_t \<Rightarrow> 0
      | primary_t \<Rightarrow> 0
      | secondary_up_to_date_t \<Rightarrow> 1
      | secondary_without_primary_t \<Rightarrow> 2
      | secondary_backfilling_t \<Rightarrow> 2
      | nothing_when_safe_t \<Rightarrow> 3
      | nothing_when_done_erasing_t \<Rightarrow> 3
      | nothing_t \<Rightarrow> 3)"

text \<open>The first loop: every activity that meets the shard sets its cost on the intersection.\<close>

fun set_costs ::
  "'r region_ops \<Rightarrow> 'r \<Rightarrow> 'r reactor_business_card_t \<Rightarrow> ('r \<times> real) list \<Rightarrow>
   ('r \<times> real) list" where
  "set_costs ops shard_region [] costs = costs"
| "set_costs ops shard_region (a # as) costs =
     (let intersection = region_intersection ops (region a) shard_region
      in if \<not> region_is_empty ops intersection
         then set_costs ops shard_region as
                (region_map_set ops costs intersection (of_int (activity_cost (activity a))))
         else set_costs ops shard_region as costs)"

text \<open>The second loop: the sum and the number of the pieces.\<close>

fun sum_count :: "('r \<times> real) list \<Rightarrow> real \<Rightarrow> int \<Rightarrow> real \<times> int" where
  "sum_count [] acc cnt = (acc, cnt)"
| "sum_count (piece # pieces) acc cnt = sum_count pieces (acc + snd piece) (cnt + 1)"

definition estimate_cost_to_get_up_to_date ::
  "'r region_ops \<Rightarrow> 'r reactor_business_card_t \<Rightarrow> 'r \<Rightarrow> error + real" where
  "estimate_cost_to_get_up_to_date ops business_card shard_region =
     (let costs = set_costs ops shard_region business_card (new_region_map shard_region 3);
          (acc, cnt) = sum_count costs 0 0
      in if cnt = 0 then Inl Not_a_number else Inr (acc / of_int cnt))"

subsection \<open>The inputs and the output of table\_generate\_config\<close>

record shard_t =
  replica_names :: "name_string_t fset"      \<comment> \<open>\<open>std::set<name_string_t>\<close>\<close>
  director_names :: "name_string_t list"     \<comment> \<open>\<open>std::vector<name_string_t>\<close>\<close>

record table_config_t =
  shards :: "shard_t list"

definition new_shard :: shard_t where
  "new_shard = \<lparr>replica_names = {||}, director_names = []\<rparr>"

text \<open>\<open>std::vector::resize\<close>: cut, or fill up with value-initialised elements.\<close>

definition resize :: "nat \<Rightarrow> 'a \<Rightarrow> 'a list \<Rightarrow> 'a list" where
  "resize n d xs = take n xs @ replicate (n - length xs) d"

record server_name_client_t =
  get_servers_with_tag :: "name_string_t \<Rightarrow> name_string_t list"
    \<comment> \<open>a \<open>std::set\<close> in iteration order\<close>
  get_name_to_machine_id_map :: "(name_string_t \<times> machine_id_t) list"
    \<comment> \<open>a \<open>std::multimap\<close> in iteration order\<close>
  get_peer_id_for_machine_id :: "machine_id_t \<Rightarrow> peer_id_t option"

text \<open>\<open>namespaces_directory_metadata_t\<close> is read through \<open>reactor_bcards.find\<close> only, the
  directory through \<open>get_inner().find\<close> only.\<close>

type_synonym 'r namespaces_directory_metadata_t =
  "namespace_id_t \<Rightarrow> 'r reactor_business_card_t option"

type_synonym 'r directory_t = "peer_id_t \<Rightarrow> 'r namespaces_directory_metadata_t option"

definition PRIMARY_USAGE_COST :: int where
  "PRIMARY_USAGE_COST = 10"

definition SECONDARY_USAGE_COST :: int where
  "SECONDARY_USAGE_COST = 8"

subsection \<open>The snapshot of the tags\<close>

fun fetch_tags ::
  "server_name_client_t \<Rightarrow> (name_string_t \<times> nat) list \<Rightarrow>
   (name_string_t \<times> name_string_t list) list \<Rightarrow> (name_string_t \<times> name_string_t list) list" where
  "fetch_tags name_client [] swt = swt"
| "fetch_tags name_client ((tag, cnt) # rest) swt =
     fetch_tags name_client rest (map_insert tag (get_servers_with_tag name_client tag) swt)"

definition snapshot_tags ::
  "server_name_client_t \<Rightarrow> table_generate_config_params_t \<Rightarrow>
   (name_string_t \<times> name_string_t list) list" where
  "snapshot_tags name_client params =
     (let swt = fetch_tags name_client (num_replicas params) []
      in if map_of swt (director_tag params) = None
         then map_insert (director_tag params)
                (get_servers_with_tag name_client (director_tag params)) swt
         else swt)"

subsection \<open>The reactor information of the servers\<close>

record 'r directory_fetch =
  missing :: "name_string_t list"         \<comment> \<open>\<open>std::set\<close>\<close>
  colliding :: "name_string_t list"       \<comment> \<open>\<open>std::set\<close>\<close>
  directory_metadata :: "(name_string_t \<times> 'r reactor_business_card_t) list"

definition no_fetch :: "'r directory_fetch" where
  "no_fetch = \<lparr>missing = [], colliding = [], directory_metadata = []\<rparr>"

text \<open>The body of the loop over the servers of one tag.\<close>

definition fetch_server ::
  "server_name_client_t \<Rightarrow> 'r directory_t \<Rightarrow> namespace_id_t \<Rightarrow> name_string_t \<Rightarrow>
   'r directory_fetch \<Rightarrow> 'r directory_fetch" where
  "fetch_server name_client directory_view table_id name f =
     (if length (filter (\<lambda>e. fst e = name) (get_name_to_machine_id_map name_client)) > 1
      then f\<lparr>colliding := set_insert name (colliding f)\<rparr>
      else
        (case map_of (get_name_to_machine_id_map name_client) name of
           None \<Rightarrow> f\<lparr>missing := set_insert name (missing f)\<rparr>
         | Some machine_id \<Rightarrow>
           (case get_peer_id_for_machine_id name_client machine_id of
              None \<Rightarrow> f\<lparr>missing := set_insert name (missing f)\<rparr>
            | Some peer_id \<Rightarrow>
              (case directory_view peer_id of
                 None \<Rightarrow> f\<lparr>missing := set_insert name (missing f)\<rparr>
               | Some peer_dir \<Rightarrow>
                 (case peer_dir table_id of
                    None \<Rightarrow> f
                  | Some bcard \<Rightarrow>
                      f\<lparr>directory_metadata :=
                          map_insert name bcard (directory_metadata f)\<rparr>)))))"

fun fetch_servers ::
  "server_name_client_t \<Rightarrow> 'r directory_t \<Rightarrow> namespace_id_t \<Rightarrow> name_string_t list \<Rightarrow>
   'r directory_fetch \<Rightarrow> 'r directory_fetch" where
  "fetch_servers name_client directory_view table_id [] f = f"
| "fetch_servers name_client directory_view table_id (name # names) f =
     fetch_servers name_client directory_view table_id names
       (fetch_server name_client directory_view table_id name f)"

fun fetch_directory ::
  "server_name_client_t \<Rightarrow> 'r directory_t \<Rightarrow> namespace_id_t \<Rightarrow>
   (name_string_t \<times> name_string_t list) list \<Rightarrow> 'r directory_fetch \<Rightarrow> 'r directory_fetch" where
  "fetch_directory name_client directory_view table_id [] f = f"
| "fetch_directory name_client directory_view table_id ((tag, names) # rest) f =
     fetch_directory name_client directory_view table_id rest
       (fetch_servers name_client directory_view table_id names f)"

subsection \<open>The pairings of one tag\<close>

text \<open>Lines 358 to 372: the backfill cost of one pairing.\<close>

definition pairing_backfill_cost ::
  "'r region_ops \<Rightarrow> namespace_id_t \<Rightarrow> (name_string_t \<times> 'r reactor_business_card_t) list \<Rightarrow>
   (nat \<Rightarrow> 'r) \<Rightarrow> name_string_t \<Rightarrow> nat \<Rightarrow> error + real" where
  "pairing_backfill_cost ops table_id dir_metadata shard_scheme name sh =
     (if table_id = nil_uuid then
        (case map_of dir_metadata name of
           None \<Rightarrow> Inr 3.0
         | Some bcard \<Rightarrow> estimate_cost_to_get_up_to_date ops bcard (shard_scheme sh))
      else Inr 0)"

text \<open>The loop over the shards, as a recursion over \<open>[0..<num_shards]\<close>.\<close>

fun shard_pairings ::
  "'r region_ops \<Rightarrow> namespace_id_t \<Rightarrow> (name_string_t \<times> 'r reactor_business_card_t) list \<Rightarrow>
   (nat \<Rightarrow> 'r) \<Rightarrow> name_string_t \<Rightarrow> nat list \<Rightarrow> pairing_t list \<Rightarrow> error + pairing_t list" where
  "shard_pairings ops table_id dir_metadata shard_scheme name [] ps = Inr ps"
| "shard_pairings ops table_id dir_metadata shard_scheme name (sh # shs) ps =
     (case pairing_backfill_cost ops table_id dir_metadata shard_scheme name sh of
        Inl e \<Rightarrow> Inl e
      | Inr c \<Rightarrow>
          shard_pairings ops table_id dir_metadata shard_scheme name shs
            (multiset_insert pairing_less \<lparr>backfill_cost = c, shard = sh\<rparr> ps))"

definition server_pairings_of ::
  "'r region_ops \<Rightarrow> namespace_id_t \<Rightarrow> (name_string_t \<times> 'r reactor_business_card_t) list \<Rightarrow>
   (name_string_t \<Rightarrow> int option) \<Rightarrow> table_generate_config_params_t \<Rightarrow> (nat \<Rightarrow> 'r) \<Rightarrow>
   name_string_t \<Rightarrow> error + server_pairings_t" where
  "server_pairings_of ops table_id dir_metadata server_usage params shard_scheme name =
     (case shard_pairings ops table_id dir_metadata shard_scheme name
             [0..<num_shards params] [] of
        Inl e \<Rightarrow> Inl e
      | Inr ps \<Rightarrow>
          Inr \<lparr>self_usage_cost = 0, pairings = ps,
               other_usage_cost = (case server_usage name of None \<Rightarrow> 0 | Some u \<Rightarrow> u),
               server = name\<rparr>)"

text \<open>The loop over the servers of the tag, which fills the local map \<open>pairings\<close>.\<close>

fun tag_pairings ::
  "environment \<Rightarrow> 'r region_ops \<Rightarrow> namespace_id_t \<Rightarrow>
   (name_string_t \<times> 'r reactor_business_card_t) list \<Rightarrow> (name_string_t \<Rightarrow> int option) \<Rightarrow>
   table_generate_config_params_t \<Rightarrow> (nat \<Rightarrow> 'r) \<Rightarrow> name_string_t list \<Rightarrow>
   (name_string_t \<times> server_pairings_t) list \<Rightarrow> long_calculation_yielder_t \<Rightarrow>
   error + (name_string_t \<times> server_pairings_t) list \<times> long_calculation_yielder_t" where
  "tag_pairings env ops table_id dir_metadata server_usage params shard_scheme [] pmap y =
     Inr (pmap, y)"
| "tag_pairings env ops table_id dir_metadata server_usage params shard_scheme
     (name # names) pmap y =
     (case server_pairings_of ops table_id dir_metadata server_usage params shard_scheme name of
        Inl e \<Rightarrow> Inl e
      | Inr sp \<Rightarrow>
        (case maybe_yield env y of
           Inl e \<Rightarrow> Inl e
         | Inr y1 \<Rightarrow>
             tag_pairings env ops table_id dir_metadata server_usage params shard_scheme
               names (map_assign name sp pmap) y1))"

text \<open>The multiset handed to the selector: a copy of every entry that has a pairing left.\<close>

fun collect_pairings ::
  "(name_string_t \<times> server_pairings_t) list \<Rightarrow> server_pairings_t list \<Rightarrow>
   error + server_pairings_t list" where
  "collect_pairings [] s = Inr s"
| "collect_pairings (x # xs) s =
     (if pairings (snd x) \<noteq> []
      then (case insert_server_pairings (snd x) s of
              Inl e \<Rightarrow> Inl e
            | Inr s1 \<Rightarrow> collect_pairings xs s1)
      else collect_pairings xs s)"

subsection \<open>The two callbacks\<close>

text \<open>The loop that erases the first pairing of the shard and breaks.\<close>

fun erase_shard :: "nat \<Rightarrow> pairing_t list \<Rightarrow> pairing_t list" where
  "erase_shard sh [] = []"
| "erase_shard sh (p # ps) = (if shard p = sh then ps else p # erase_shard sh ps)"

text \<open>
  The callback of the director phase works on \<open>config_out\<close> and on the local map
  \<open>pairings\<close>. \<open>shards[shard]\<close> is unchecked; \<open>pairings[server]\<close> on a missing key would
  create an entry whose costs are indeterminate and add to it.
\<close>

definition director_callback ::
  "nat \<Rightarrow> name_string_t \<Rightarrow> table_config_t \<times> (name_string_t \<times> server_pairings_t) list \<Rightarrow>
   error + table_config_t \<times> (name_string_t \<times> server_pairings_t) list" where
  "director_callback sh name st =
     (let config = fst st; pmap = snd st
      in if sh \<ge> length (shards config) then Inl Undefined_behaviour
         else if director_names (shards config ! sh) \<noteq> [] then Inl Guarantee_failed
         else
           (case map_of pmap name of
              None \<Rightarrow> Inl Undefined_behaviour
            | Some sp \<Rightarrow>
                Inr (config\<lparr>shards := (shards config)
                        [sh := (shards config ! sh)
                           \<lparr>replica_names := finsert name (replica_names (shards config ! sh)),
                            director_names := director_names (shards config ! sh) @ [name]\<rparr>]\<rparr>,
                     map_assign name
                       (sp\<lparr>self_usage_cost := self_usage_cost sp + PRIMARY_USAGE_COST,
                           pairings := erase_shard sh (pairings sp)\<rparr>) pmap)))"

definition replica_callback ::
  "nat \<Rightarrow> name_string_t \<Rightarrow> table_config_t \<Rightarrow> error + table_config_t" where
  "replica_callback sh name config =
     (if sh \<ge> length (shards config) then Inl Undefined_behaviour
      else Inr (config\<lparr>shards := (shards config)
                  [sh := (shards config ! sh)
                     \<lparr>replica_names := finsert name (replica_names (shards config ! sh))\<rparr>]\<rparr>))"

subsection \<open>table\_generate\_config\<close>

text \<open>What the loop over the tags carries from one tag to the next.\<close>

record plan_state =
  config_out :: table_config_t
  replicas_wanted :: nat                       \<comment> \<open>the local \<open>total_replicas\<close>\<close>
  plan_yielder :: long_calculation_yielder_t

definition too_few_servers_message :: "nat \<Rightarrow> name_string_t \<Rightarrow> nat \<Rightarrow> string" where
  "too_few_servers_message cnt tag num_in_tag =
     ''You requested '' @ string_of_size cnt @ '' replicas on servers with the tag `'' @ tag
       @ ''`, but there are only '' @ string_of_size num_in_tag
       @ '' servers with the tag `'' @ tag
       @ ''`. It's impossible to have more replicas of the data than there are servers.''"

text \<open>Lines 397 to 429: the directors of the director tag, one per shard.\<close>

definition director_phase ::
  "environment \<Rightarrow> table_generate_config_params_t \<Rightarrow> long_calculation_yielder_t \<Rightarrow>
   table_config_t \<Rightarrow> (name_string_t \<times> server_pairings_t) list \<Rightarrow>
   error + table_config_t \<times> (name_string_t \<times> server_pairings_t) list
           \<times> long_calculation_yielder_t" where
  "director_phase env params y config pmap =
     (case collect_pairings pmap [] of
        Inl e \<Rightarrow> Inl e
      | Inr s \<Rightarrow>
        (case pick_best_pairings env (num_shards params) 1 s PRIMARY_USAGE_COST y
                director_callback (config, pmap) of
           Inl e \<Rightarrow> Inl e
         | Inr r \<Rightarrow> Inr (fst (fst r), snd (fst r), snd r)))"

text \<open>Lines 432 to 448: the remaining replicas of the tag.\<close>

definition replica_phase ::
  "environment \<Rightarrow> table_generate_config_params_t \<Rightarrow> nat \<Rightarrow> long_calculation_yielder_t \<Rightarrow>
   table_config_t \<Rightarrow> (name_string_t \<times> server_pairings_t) list \<Rightarrow>
   error + table_config_t \<times> long_calculation_yielder_t" where
  "replica_phase env params cap y config pmap =
     (case collect_pairings pmap [] of
        Inl e \<Rightarrow> Inl e
      | Inr s \<Rightarrow>
          pick_best_pairings env (num_shards params) cap s SECONDARY_USAGE_COST y
            replica_callback config)"

text \<open>
  The body of the loop for a tag whose count is not 0. The result \<open>(Some msg, st)\<close> stands
  for \<open>*error_out = msg; return false\<close> in state \<open>st\<close>.
\<close>

definition place_tag ::
  "environment \<Rightarrow> 'r region_ops \<Rightarrow> namespace_id_t \<Rightarrow>
   (name_string_t \<times> 'r reactor_business_card_t) list \<Rightarrow> (name_string_t \<Rightarrow> int option) \<Rightarrow>
   table_generate_config_params_t \<Rightarrow> (nat \<Rightarrow> 'r) \<Rightarrow>
   (name_string_t \<times> name_string_t list) list \<Rightarrow> name_string_t \<Rightarrow> nat \<Rightarrow> plan_state \<Rightarrow>
   error + string option \<times> plan_state" where
  "place_tag env ops table_id dir_metadata server_usage params shard_scheme servers_with_tags
     server_tag cnt st =
     (let st1 = st\<lparr>replicas_wanted := replicas_wanted st + cnt\<rparr>
      in case map_at servers_with_tags server_tag of
           Inl e \<Rightarrow> Inl e
         | Inr names \<Rightarrow>
           if length names < cnt
           then Inr (Some (too_few_servers_message cnt server_tag (length names)), st1)
           else
             (case tag_pairings env ops table_id dir_metadata server_usage params shard_scheme
                     names [] (plan_yielder st1) of
                Inl e \<Rightarrow> Inl e
              | Inr built \<Rightarrow>
                (case (if server_tag = director_tag params
                       then director_phase env params (snd built) (config_out st1) (fst built)
                       else Inr (config_out st1, fst built, snd built)) of
                   Inl e \<Rightarrow> Inl e
                 | Inr directed \<Rightarrow>
                   (case replica_phase env params
                           (cnt - (if server_tag = director_tag params then 1 else 0))
                           (snd (snd directed)) (fst directed) (fst (snd directed)) of
                      Inl e \<Rightarrow> Inl e
                    | Inr placed \<Rightarrow>
                        Inr (None, st1\<lparr>config_out := fst placed,
                                       plan_yielder := snd placed\<rparr>)))))"

fun place_tags ::
  "environment \<Rightarrow> 'r region_ops \<Rightarrow> namespace_id_t \<Rightarrow>
   (name_string_t \<times> 'r reactor_business_card_t) list \<Rightarrow> (name_string_t \<Rightarrow> int option) \<Rightarrow>
   table_generate_config_params_t \<Rightarrow> (nat \<Rightarrow> 'r) \<Rightarrow>
   (name_string_t \<times> name_string_t list) list \<Rightarrow> (name_string_t \<times> nat) list \<Rightarrow> plan_state \<Rightarrow>
   error + string option \<times> plan_state" where
  "place_tags env ops table_id dir_metadata server_usage params shard_scheme servers_with_tags
     [] st = Inr (None, st)"
| "place_tags env ops table_id dir_metadata server_usage params shard_scheme servers_with_tags
     (x # rest) st =
     (if snd x = 0
      then place_tags env ops table_id dir_metadata server_usage params shard_scheme
             servers_with_tags rest st
      else
        (case place_tag env ops table_id dir_metadata server_usage params shard_scheme
                servers_with_tags (fst x) (snd x) st of
           Inl e \<Rightarrow> Inl e
         | Inr (Some msg, st1) \<Rightarrow> Inr (Some msg, st1)
         | Inr (None, st1) \<Rightarrow>
             place_tags env ops table_id dir_metadata server_usage params shard_scheme
               servers_with_tags rest st1))"

text \<open>The two \<open>guarantee\<close>s of the final loop over the shards.\<close>

fun check_shards :: "table_config_t \<Rightarrow> nat \<Rightarrow> nat list \<Rightarrow> error + unit" where
  "check_shards config wanted [] = Inr ()"
| "check_shards config wanted (sh # shs) =
     (if sh \<ge> length (shards config) then Inl Undefined_behaviour
      else if fcard (replica_names (shards config ! sh)) \<noteq> wanted then Inl Guarantee_failed
      else if length (director_names (shards config ! sh)) \<noteq> 1 then Inl Guarantee_failed
      else check_shards config wanted shs)"

text \<open>
  The result \<open>Inr (b, config, msg)\<close> is a return of \<open>b\<close> with \<open>*config_out = config\<close> and
  \<open>*error_out = msg\<close>; the last two arguments are what the caller's objects hold at the
  call. The interruptor is \<open>is_pulsed env\<close>.
\<close>

definition table_generate_config ::
  "environment \<Rightarrow> 'r region_ops \<Rightarrow> server_name_client_t \<Rightarrow> namespace_id_t \<Rightarrow>
   'r directory_t \<Rightarrow> (name_string_t \<Rightarrow> int option) \<Rightarrow> table_generate_config_params_t \<Rightarrow>
   (nat \<Rightarrow> 'r) \<Rightarrow> table_config_t \<Rightarrow> string \<Rightarrow> error + bool \<times> table_config_t \<times> string" where
  "table_generate_config env ops name_client table_id directory_view server_usage params
     shard_scheme config0 error0 =
     (let y0 = new_yielder env;
          servers_with_tags = snapshot_tags name_client params
      in case validate_params params servers_with_tags of
           Inl e \<Rightarrow> Inl e
         | Inr (Some msg) \<Rightarrow> Inr (False, config0, msg)
         | Inr None \<Rightarrow>
           (let f = (if table_id \<noteq> nil_uuid
                     then fetch_directory name_client directory_view table_id
                            servers_with_tags no_fetch
                     else no_fetch)
            in if missing f \<noteq> [] then
                 Inr (False, config0,
                      ''Can't configure table because server `'' @ hd (missing f)
                        @ ''` is missing'')
               else if colliding f \<noteq> [] then
                 Inr (False, config0,
                      ''Cannot configure table because multiple servers are named `''
                        @ hd (colliding f) @ ''`. Fix this name collision and try again.'')
               else
                 (case maybe_yield env y0 of
                    Inl e \<Rightarrow> Inl e
                  | Inr y1 \<Rightarrow>
                    (case place_tags env ops table_id (directory_metadata f) server_usage
                            params shard_scheme servers_with_tags (num_replicas params)
                            \<lparr>config_out =
                               config0\<lparr>shards :=
                                 resize (num_shards params) new_shard (shards config0)\<rparr>,
                             replicas_wanted = 0, plan_yielder = y1\<rparr> of
                       Inl e \<Rightarrow> Inl e
                     | Inr (Some msg, st) \<Rightarrow> Inr (False, config_out st, msg)
                     | Inr (None, st) \<Rightarrow>
                       (case check_shards (config_out st) (replicas_wanted st)
                               [0..<num_shards params] of
                          Inl e \<Rightarrow> Inl e
                        | Inr u \<Rightarrow> Inr (True, config_out st, error0))))))"

section \<open>Auxiliary notions for the proofs and example inputs\<close>

text \<open>No server of a tag of \<open>reps\<close> with a count is claimed in \<open>cl\<close>, and no two such tags
  share a server; \<open>sv\<close> gives the servers of a tag.\<close>

definition no_overlap ::
  "(name_string_t \<Rightarrow> name_string_t list) \<Rightarrow> (name_string_t \<times> nat) list \<Rightarrow>
   (name_string_t \<times> name_string_t) list \<Rightarrow> bool" where
  "no_overlap sv reps cl \<longleftrightarrow>
     (\<forall>x \<in> set reps. snd x \<noteq> 0 \<longrightarrow> (\<forall>n \<in> set (sv (fst x)). map_of cl n = None))
     \<and> (\<forall>x \<in> set reps. \<forall>y \<in> set reps. snd x \<noteq> 0 \<and> snd y \<noteq> 0 \<and> fst x \<noteq> fst y
           \<longrightarrow> set (sv (fst x)) \<inter> set (sv (fst y)) = {})"

text \<open>The result is the overlap message for a tag of \<open>reps\<close>, a different tag of \<open>T\<close> and a
  server of both.\<close>

definition names_overlap ::
  "(name_string_t \<Rightarrow> name_string_t list) \<Rightarrow> (name_string_t \<times> nat) list \<Rightarrow>
    name_string_t set \<Rightarrow> error + string option \<Rightarrow> bool" where
  "names_overlap sv reps T res \<longleftrightarrow>
     (\<exists>ta tb s. res = Inr (Some (overlap_message ta tb s)) \<and> ta \<noteq> tb
        \<and> (\<exists>c. (ta, c) \<in> set reps \<and> c \<noteq> 0) \<and> tb \<in> T
        \<and> s \<in> set (sv ta) \<and> s \<in> set (sv tb))"

text \<open>Scenario S5: the tags \<open>t1\<close> and \<open>t2\<close> both contain the server \<open>X\<close>.\<close>

definition overlap_params :: table_generate_config_params_t where
  "overlap_params =
     \<lparr>num_shards = 1, num_replicas = [(''t1'', 1), (''t2'', 1)], director_tag = ''t1''\<rparr>"

definition overlap_client :: server_name_client_t where
  "overlap_client =
     \<lparr>get_servers_with_tag = (\<lambda>tg. if tg = ''t1'' \<or> tg = ''t2'' then [''X''] else []),
      get_name_to_machine_id_map = [], get_peer_id_for_machine_id = (\<lambda>m. None)\<rparr>"

text \<open>The number of pairings for shard \<open>sh\<close> in a multiset of server pairings.\<close>

definition pairings_on :: "nat \<Rightarrow> server_pairings_t list \<Rightarrow> nat" where
  "pairings_on sh prs =
     sum_list (map (\<lambda>sp. length (filter (\<lambda>p. shard p = sh) (pairings sp))) prs)"

text \<open>A callback that only records its invocations, and the number of its invocations
  for one shard.\<close>

definition record_call ::
  "nat \<Rightarrow> name_string_t \<Rightarrow> (nat \<times> name_string_t) list \<Rightarrow>
   error + (nat \<times> name_string_t) list" where
  "record_call sh name calls = Inr (calls @ [(sh, name)])"

definition calls_on :: "nat \<Rightarrow> (nat \<times> name_string_t) list \<Rightarrow> nat" where
  "calls_on sh calls = length (filter (\<lambda>c. fst c = sh) calls)"

text \<open>The counters of the selector: one per shard, none above the cap, and their sum.\<close>

definition counters_inv :: "nat \<Rightarrow> nat \<Rightarrow> 'st pick_state \<Rightarrow> bool" where
  "counters_inv n cap s \<longleftrightarrow>
     length (shard_replicas s) = n \<and> total_replicas s = sum_list (shard_replicas s)
     \<and> (\<forall>sh < n. shard_replicas s ! sh \<le> cap)"

text \<open>The supply of the selector: no empty server pairings, no shard out of range, and
  for every shard enough pairings left to reach the cap.\<close>

definition supply_inv :: "nat \<Rightarrow> nat \<Rightarrow> 'st pick_state \<Rightarrow> bool" where
  "supply_inv n cap s \<longleftrightarrow>
     (\<forall>sp \<in> set (remaining s). pairings sp \<noteq> [] \<and> (\<forall>p \<in> set (pairings sp). shard p < n))
     \<and> (\<forall>sh < n. cap \<le> shard_replicas s ! sh + pairings_on sh (remaining s))"

text \<open>What the recording callback has recorded agrees with the counters.\<close>

definition calls_inv :: "nat \<Rightarrow> (nat \<times> name_string_t) list pick_state \<Rightarrow> bool" where
  "calls_inv n s \<longleftrightarrow>
     length (cb_state s) = total_replicas s
     \<and> (\<forall>sh < n. calls_on sh (cb_state s) = shard_replicas s ! sh)"

text \<open>An environment in which the interruptor is never pulsed.\<close>

definition calm_env :: environment where
  "calm_env = \<lparr>get_ticks = (\<lambda>k. 0), is_pulsed = (\<lambda>k. False)\<rparr>"

text \<open>Two servers with a pairing for each of two shards; and three servers of which only
  one has a pairing for shard 1.\<close>

definition two_by_two :: "server_pairings_t list" where
  "two_by_two =
     [\<lparr>self_usage_cost = 0,
       pairings = [\<lparr>backfill_cost = 0, shard = 0\<rparr>, \<lparr>backfill_cost = 0, shard = 1\<rparr>],
       other_usage_cost = 0, server = ''A''\<rparr>,
      \<lparr>self_usage_cost = 0,
       pairings = [\<lparr>backfill_cost = 0, shard = 0\<rparr>, \<lparr>backfill_cost = 0, shard = 1\<rparr>],
       other_usage_cost = 0, server = ''B''\<rparr>]"

definition lopsided :: "server_pairings_t list" where
  "lopsided =
     [\<lparr>self_usage_cost = 0,
       pairings = [\<lparr>backfill_cost = 0, shard = 0\<rparr>, \<lparr>backfill_cost = 0, shard = 1\<rparr>],
       other_usage_cost = 0, server = ''A''\<rparr>,
      \<lparr>self_usage_cost = 0, pairings = [\<lparr>backfill_cost = 0, shard = 0\<rparr>],
       other_usage_cost = 0, server = ''B''\<rparr>,
      \<lparr>self_usage_cost = 0, pairings = [\<lparr>backfill_cost = 0, shard = 0\<rparr>],
       other_usage_cost = 0, server = ''C''\<rparr>]"

text \<open>Shard \<open>sh\<close> has a director, and its directors are among its replicas.\<close>

definition director_placed :: "table_config_t \<Rightarrow> nat \<Rightarrow> bool" where
  "director_placed config sh \<longleftrightarrow>
     director_names (shards config ! sh) \<noteq> []
     \<and> set (director_names (shards config ! sh)) \<subseteq> fset (replica_names (shards config ! sh))"

definition directors_placed :: "nat \<Rightarrow> table_config_t \<Rightarrow> bool" where
  "directors_placed n config \<longleftrightarrow>
     length (shards config) = n \<and> (\<forall>sh < n. director_placed config sh)"

text \<open>The directors of the shards, shard by shard.\<close>

definition directors_of :: "table_config_t \<Rightarrow> name_string_t list list" where
  "directors_of config = map director_names (shards config)"

text \<open>The yielder after a call of \<open>maybe_yield\<close> that was not interrupted.\<close>

definition advance :: "environment \<Rightarrow> long_calculation_yielder_t \<Rightarrow> long_calculation_yielder_t" where
  "advance env y =
     (if get_ticks env (Suc (polls y)) > last_yield y + secs_to_ticks_10ms
      then y\<lparr>last_yield := get_ticks env (Suc (polls y))\<rparr> else y)\<lparr>polls := Suc (polls y)\<rparr>"

text \<open>Regions as sets of keys, for the examples: a region map loses the keys of the
  region that is set and gains a piece for it.\<close>

definition key_set_ops :: "nat set region_ops" where
  "key_set_ops =
     \<lparr>region_intersection = (\<lambda>a b. a \<inter> b), region_is_empty = (\<lambda>r. r = {}),
      region_map_set = (\<lambda>m r v. filter (\<lambda>piece. fst piece \<noteq> {})
                          (map (\<lambda>piece. (fst piece - r, snd piece)) m) @ [(r, v)])\<rparr>"

text \<open>Scenario S2: a new table with 3 shards, the servers \<open>A\<close>, \<open>B\<close>, \<open>C\<close> in the tag
  \<open>default\<close>, one replica, and shard \<open>sh\<close> holding the key \<open>sh\<close>.\<close>

definition abc_client :: server_name_client_t where
  "abc_client =
     \<lparr>get_servers_with_tag = (\<lambda>tg. if tg = ''default'' then [''A'', ''B'', ''C''] else []),
      get_name_to_machine_id_map = [], get_peer_id_for_machine_id = (\<lambda>m. None)\<rparr>"

definition s2_params :: table_generate_config_params_t where
  "s2_params = \<lparr>num_shards = 3, num_replicas = [(''default'', 1)], director_tag = ''default''\<rparr>"

definition s2_config :: table_config_t where
  "s2_config =
     \<lparr>shards = [\<lparr>replica_names = {|''A''|}, director_names = [''A'']\<rparr>,
                \<lparr>replica_names = {|''B''|}, director_names = [''B'']\<rparr>,
                \<lparr>replica_names = {|''C''|}, director_names = [''C'']\<rparr>]\<rparr>"

text \<open>Two tags: \<open>a\<close> with the server \<open>A\<close> and one replica, the director tag, and \<open>b\<close> with
  the server \<open>B\<close> and two replicas; and the plan after the tag \<open>a\<close> for two shards.\<close>

definition two_tag_client :: server_name_client_t where
  "two_tag_client =
     \<lparr>get_servers_with_tag =
        (\<lambda>tg. if tg = ''a'' then [''A''] else if tg = ''b'' then [''B''] else []),
      get_name_to_machine_id_map = [], get_peer_id_for_machine_id = (\<lambda>m. None)\<rparr>"

definition two_tag_params :: table_generate_config_params_t where
  "two_tag_params =
     \<lparr>num_shards = 2, num_replicas = [(''a'', 1), (''b'', 2)], director_tag = ''a''\<rparr>"

definition half_planned :: table_config_t where
  "half_planned =
     \<lparr>shards = [\<lparr>replica_names = {|''A''|}, director_names = [''A'']\<rparr>,
                \<lparr>replica_names = {|''A''|}, director_names = [''A'']\<rparr>]\<rparr>"

text \<open>Two yielders, two states of the selector and two states of the planner that differ
  at most in the time of the last yield.\<close>

definition same_polls :: "long_calculation_yielder_t \<Rightarrow> long_calculation_yielder_t \<Rightarrow> bool" where
  "same_polls y1 y2 \<longleftrightarrow> polls y1 = polls y2"

definition same_data :: "'st pick_state \<Rightarrow> 'st pick_state \<Rightarrow> bool" where
  "same_data s1 s2 \<longleftrightarrow>
     shard_replicas s1 = shard_replicas s2 \<and> total_replicas s1 = total_replicas s2
     \<and> remaining s1 = remaining s2 \<and> cb_state s1 = cb_state s2
     \<and> same_polls (yielder s1) (yielder s2)"

definition same_plan :: "plan_state \<Rightarrow> plan_state \<Rightarrow> bool" where
  "same_plan st1 st2 \<longleftrightarrow>
     config_out st1 = config_out st2 \<and> replicas_wanted st1 = replicas_wanted st2
     \<and> same_polls (plan_yielder st1) (plan_yielder st2)"

text \<open>
  The keys of a region are given by \<open>keys\<close>. A region map \<open>m\<close> represents the function \<open>f\<close> on
  the set \<open>D\<close> of keys when its pieces are not empty, cover \<open>D\<close> and carry the value of \<open>f\<close>
  on each of their keys.
\<close>

definition represents ::
  "('r \<Rightarrow> 'k set) \<Rightarrow> ('r \<times> real) list \<Rightarrow> 'k set \<Rightarrow> ('k \<Rightarrow> real) \<Rightarrow> bool" where
  "represents keys m D f \<longleftrightarrow>
     (\<forall>piece \<in> set m. keys (fst piece) \<noteq> {} \<and> (\<forall>k \<in> keys (fst piece). snd piece = f k))
     \<and> (\<Union>piece \<in> set m. keys (fst piece)) = D"

text \<open>The region operations are those of sets of keys: intersection, emptiness, and a
  \<open>set\<close> that overrides the map on the keys of the region and nowhere else.\<close>

definition region_model :: "'r region_ops \<Rightarrow> ('r \<Rightarrow> 'k set) \<Rightarrow> bool" where
  "region_model ops keys \<longleftrightarrow>
     (\<forall>a b. keys (region_intersection ops a b) = keys a \<inter> keys b)
     \<and> (\<forall>r. region_is_empty ops r \<longleftrightarrow> keys r = {})
     \<and> (\<forall>m D f r v. represents keys m D f \<and> keys r \<noteq> {} \<and> keys r \<subseteq> D \<longrightarrow>
           represents keys (region_map_set ops m r v) D (\<lambda>k. if k \<in> keys r then v else f k))"

text \<open>The cost table of the spec (section 4.1), and the cost of a key under a business
  card: that of the activity whose region holds the key, 3 when there is none.\<close>

definition cost_table :: "activity_t \<Rightarrow> real" where
  "cost_table a =
     (if a = primary_t \<or> a = primary_when_safe_t then 0
      else if a = secondary_up_to_date_t then 1
      else if a = secondary_without_primary_t \<or> a = secondary_backfilling_t then 2
      else 3)"

definition key_cost ::
  "('r \<Rightarrow> 'k set) \<Rightarrow> 'r reactor_business_card_t \<Rightarrow> 'k \<Rightarrow> real" where
  "key_cost keys business_card k =
     (case find (\<lambda>a. k \<in> keys (region a)) business_card of
        None \<Rightarrow> 3
      | Some a \<Rightarrow> cost_table (activity a))"

text \<open>The regions of the activities do not overlap.\<close>

definition non_overlapping :: "('r \<Rightarrow> 'k set) \<Rightarrow> 'r reactor_business_card_t \<Rightarrow> bool" where
  "non_overlapping keys business_card \<longleftrightarrow>
     (\<forall>i < length business_card. \<forall>j < length business_card.
        i \<noteq> j \<longrightarrow> keys (region (business_card ! i)) \<inter> keys (region (business_card ! j)) = {})"

text \<open>A business card with three activities on disjoint sets of keys.\<close>

definition example_card :: "nat set reactor_business_card_t" where
  "example_card =
     [\<lparr>region = {0, 1}, activity = primary_t\<rparr>,
      \<lparr>region = {2}, activity = secondary_up_to_date_t\<rparr>,
      \<lparr>region = {7}, activity = nothing_t\<rparr>]"

text \<open>Scenario S4: 2 shards, one replica in the tag \<open>default\<close>.\<close>

definition s4_params :: table_generate_config_params_t where
  "s4_params = \<lparr>num_shards = 2, num_replicas = [(''default'', 1)], director_tag = ''default''\<rparr>"

text \<open>A name client that differs from that of scenario S2 on the tags outside the
  parameters.\<close>

definition other_client :: server_name_client_t where
  "other_client =
     \<lparr>get_servers_with_tag =
        (\<lambda>tg. if tg = ''default'' then [''A'', ''B'', ''C''] else [''D'']),
      get_name_to_machine_id_map = [], get_peer_id_for_machine_id = (\<lambda>m. None)\<rparr>"

section \<open>The order on pairings\<close>

text \<open>
  C5 (as amended). \<open>operator<\<close> on pairings compares the backfill costs and nothing else:
  \<open>a\<close> precedes \<open>b\<close> exactly when \<open>a.backfill_cost < b.backfill_cost\<close>. The shard index
  takes no part in the comparison: changing the shards of \<open>a\<close> and \<open>b\<close> does not change
  the answer. (Pairings of equal cost stay in the order of their insertion into the
  multiset, which for the pairings of a server is the order of the shard indices.)
\<close>

theorem pairing_less_iff_cost:
  "(pairing_less a b \<longleftrightarrow> backfill_cost a < backfill_cost b)
   \<and> pairing_less (a\<lparr>shard := i\<rparr>) (b\<lparr>shard := j\<rparr>) = pairing_less a b"
  by (simp add: pairing_less_def)

text \<open>
  C5 (as stated) fails: two pairings of equal cost on shards 0 and 1 are not ordered by
  \<open>operator<\<close>, although the first has the smaller shard index.
\<close>

theorem pairing_less_ignores_shard:
  "\<not> (pairing_less \<lparr>backfill_cost = 0, shard = 0\<rparr> \<lparr>backfill_cost = 0, shard = 1\<rparr>
       \<longleftrightarrow> (backfill_cost \<lparr>backfill_cost = 0, shard = 0\<rparr>
              < backfill_cost \<lparr>backfill_cost = 0, shard = 1\<rparr>
            \<or> (backfill_cost \<lparr>backfill_cost = 0, shard = 0\<rparr>
                 = backfill_cost \<lparr>backfill_cost = 0, shard = 1\<rparr>
               \<and> shard \<lparr>backfill_cost = 0, shard = 0\<rparr>
                   < shard \<lparr>backfill_cost = 0, shard = 1\<rparr>)))"
  by (simp add: pairing_less_def)

section \<open>The backfill cost of the pairings of a new table\<close>

lemma multiset_insert_not_less:
  "\<forall>q \<in> set ps. \<not> backfill_cost p < backfill_cost q \<Longrightarrow>
     multiset_insert pairing_less p ps = ps @ [p]"
  by (induction ps) (simp_all add: pairing_less_def)

lemma shard_pairings_new_table:
  "\<forall>q \<in> set ps. backfill_cost q = 3 \<Longrightarrow>
   shard_pairings ops nil_uuid [] shard_scheme name shs ps
     = Inr (ps @ map (\<lambda>sh. \<lparr>backfill_cost = 3, shard = sh\<rparr>) shs)"
proof (induction shs arbitrary: ps)
  case Nil
  then show ?case by simp
next
  case (Cons sh shs)
  have "multiset_insert pairing_less \<lparr>backfill_cost = 3, shard = sh\<rparr> ps
          = ps @ [\<lparr>backfill_cost = 3, shard = sh\<rparr>]"
    using Cons.prems by (intro multiset_insert_not_less) simp
  then show ?case
    using Cons.prems by (simp add: pairing_backfill_cost_def Cons.IH)
qed

text \<open>
  C1 (the code at the failing input). For the nil table id the directory is not fetched,
  so \<open>directory_metadata\<close> is empty when the pairings are built; the test
  \<open>table_id == nil_uuid()\<close> of line 358 then sends every server and every shard to the
  branch for a server without directory entry. Every pairing of a new table gets the
  backfill cost 3.0, not 0.
\<close>

theorem new_table_pairings_cost_3:
  "server_pairings_of ops nil_uuid (directory_metadata no_fetch) server_usage params
     shard_scheme name
   = Inr \<lparr>self_usage_cost = 0,
          pairings = map (\<lambda>sh. \<lparr>backfill_cost = 3, shard = sh\<rparr>) [0..<num_shards params],
          other_usage_cost = (case server_usage name of None \<Rightarrow> 0 | Some u \<Rightarrow> u),
          server = name\<rparr>"
  by (simp add: server_pairings_of_def no_fetch_def shard_pairings_new_table)

section \<open>Overlapping tags are rejected\<close>

lemma map_of_map_insert_new:
  "map_of m k = None \<Longrightarrow> map_of (map_insert k v m) = (map_of m)(k \<mapsto> v)"
  by (induction m) (auto simp: fun_eq_iff)

lemma claim_servers_Inr:
  "claim_servers tag names cl = Inr cl' \<Longrightarrow>
     (\<forall>n \<in> set names. map_of cl n = None)
     \<and> map_of cl' = (\<lambda>n. if n \<in> set names then Some tag else map_of cl n)"
proof (induction names arbitrary: cl)
  case Nil
  then show ?case by simp
next
  case (Cons name names)
  from Cons.prems have none: "map_of cl name = None"
    by (simp split: option.splits)
  with Cons.prems have rec: "claim_servers tag names (map_insert name tag cl) = Inr cl'"
    by simp
  note ih = Cons.IH [OF rec]
  have upd: "map_of (map_insert name tag cl) = (map_of cl)(name \<mapsto> tag)"
    using none by (rule map_of_map_insert_new)
  show ?case
    using ih none unfolding upd by (auto simp: fun_eq_iff split: if_splits)
qed

lemma claim_servers_Inl:
  "claim_servers tag names cl = Inl msg \<Longrightarrow> distinct names \<Longrightarrow>
     \<exists>n other. n \<in> set names \<and> map_of cl n = Some other \<and> msg = overlap_message tag other n"
proof (induction names arbitrary: cl)
  case Nil
  then show ?case by simp
next
  case (Cons name names)
  show ?case
  proof (cases "map_of cl name")
    case (Some other)
    with Cons.prems show ?thesis by auto
  next
    case None
    with Cons.prems have rec: "claim_servers tag names (map_insert name tag cl) = Inl msg"
      by simp
    from Cons.prems have d: "distinct names" and fresh: "name \<notin> set names" by simp_all
    from Cons.IH [OF rec d] obtain n other where
      n: "n \<in> set names" "map_of (map_insert name tag cl) n = Some other"
         "msg = overlap_message tag other n" by blast
    from n(1) fresh have "n \<noteq> name" by auto
    with n(2) None have "map_of cl n = Some other"
      by (simp add: map_of_map_insert_new)
    with n show ?thesis by auto
  qed
qed

lemma check_overlap_cases:
  assumes "\<forall>x \<in> set reps. snd x \<noteq> 0 \<longrightarrow>
             map_of swt (fst x) = Some (sv (fst x)) \<and> distinct (sv (fst x)) \<and> fst x \<in> T"
    and "distinct (map fst reps)"
    and "\<forall>n tg. map_of cl n = Some tg \<longrightarrow> tg \<notin> fst ` set reps \<and> n \<in> set (sv tg) \<and> tg \<in> T"
  shows "(check_overlap reps swt cl = Inr None \<and> no_overlap sv reps cl)
         \<or> names_overlap sv reps T (check_overlap reps swt cl)"
  using assms
proof (induction reps arbitrary: cl)
  case Nil
  then show ?case by (simp add: no_overlap_def)
next
  case (Cons x rest)
  obtain tg c where x: "x = (tg, c)" by (cases x)
  have rest_ok: "\<forall>x \<in> set rest. snd x \<noteq> 0 \<longrightarrow>
             map_of swt (fst x) = Some (sv (fst x)) \<and> distinct (sv (fst x)) \<and> fst x \<in> T"
    using Cons.prems(1) by simp
  have rest_d: "distinct (map fst rest)" and tg_fresh: "tg \<notin> fst ` set rest"
    using Cons.prems(2) x by auto
  show ?case
  proof (cases "c = 0")
    case True
    have inv: "\<forall>n t'. map_of cl n = Some t' \<longrightarrow> t' \<notin> fst ` set rest \<and> n \<in> set (sv t') \<and> t' \<in> T"
      using Cons.prems(3) by auto
    from Cons.IH [OF rest_ok rest_d inv] show ?thesis
      using True x by (auto simp: no_overlap_def names_overlap_def)
  next
    case False
    with Cons.prems(1) x have sw: "map_of swt tg = Some (sv tg)" and dn: "distinct (sv tg)"
      and tgT: "tg \<in> T" by auto
    show ?thesis
    proof (cases "claim_servers tg (sv tg) cl")
      case (Inl msg)
      from claim_servers_Inl [OF Inl dn] obtain n other where
        n: "n \<in> set (sv tg)" "map_of cl n = Some other" "msg = overlap_message tg other n"
        by blast
      from Cons.prems(3) n(2) x have "other \<noteq> tg" "n \<in> set (sv other)" "other \<in> T"
        by auto
      moreover have "check_overlap (x # rest) swt cl = Inr (Some (overlap_message tg other n))"
        using x False sw Inl n by (simp add: map_at_def)
      moreover have "\<exists>c. (tg, c) \<in> set (x # rest) \<and> c \<noteq> 0"
        using x False by auto
      ultimately have "names_overlap sv (x # rest) T (check_overlap (x # rest) swt cl)"
        unfolding names_overlap_def using n(1) by blast
      then show ?thesis ..
    next
      case (Inr cl')
      from claim_servers_Inr [OF Inr] have
        fresh: "\<forall>n \<in> set (sv tg). map_of cl n = None" and
        cl': "map_of cl' = (\<lambda>n. if n \<in> set (sv tg) then Some tg else map_of cl n)"
        by simp_all
      have inv: "\<forall>n t'. map_of cl' n = Some t' \<longrightarrow> t' \<notin> fst ` set rest \<and> n \<in> set (sv t') \<and> t' \<in> T"
        using Cons.prems(3) tg_fresh tgT unfolding cl' by (auto split: if_splits)
      have eq: "check_overlap (x # rest) swt cl = check_overlap rest swt cl'"
        using x False sw Inr by (simp add: map_at_def)
      from Cons.IH [OF rest_ok rest_d inv] show ?thesis
      proof
        assume a: "check_overlap rest swt cl' = Inr None \<and> no_overlap sv rest cl'"
        then have r1: "\<forall>y \<in> set rest. snd y \<noteq> 0 \<longrightarrow> (\<forall>n \<in> set (sv (fst y)). map_of cl' n = None)"
          and r2: "\<forall>y \<in> set rest. \<forall>z \<in> set rest. snd y \<noteq> 0 \<and> snd z \<noteq> 0 \<and> fst y \<noteq> fst z
           \<longrightarrow> set (sv (fst y)) \<inter> set (sv (fst z)) = {}"
          by (simp_all add: no_overlap_def)
        have d1: "\<forall>y \<in> set rest. snd y \<noteq> 0 \<longrightarrow> (\<forall>n \<in> set (sv (fst y)). n \<notin> set (sv tg) \<and> map_of cl n = None)"
        proof (intro ballI impI)
          fix y n assume "y \<in> set rest" "snd y \<noteq> 0" "n \<in> set (sv (fst y))"
          with r1 have "map_of cl' n = None" by blast
          then show "n \<notin> set (sv tg) \<and> map_of cl n = None"
            unfolding cl' by (auto split: if_splits)
        qed
        have "no_overlap sv (x # rest) cl"
          unfolding no_overlap_def using d1 r2 fresh x by auto
        with a eq show ?thesis by simp
      next
        assume "names_overlap sv rest T (check_overlap rest swt cl')"
        then have "names_overlap sv (x # rest) T (check_overlap (x # rest) swt cl)"
          unfolding eq names_overlap_def by auto
        then show ?thesis ..
      qed
    qed
  qed
qed


lemma set_map_insert: "set (map_insert k v m) \<subseteq> insert (k, v) (set m)"
  by (induction m) (auto split: if_splits)

lemma keys_map_insert: "fst ` set (map_insert k v m) = insert k (fst ` set m)"
proof (induction m)
  case Nil
  then show ?case by simp
next
  case (Cons a m)
  obtain k' v' where a: "a = (k', v')" by (cases a)
  show ?case
    unfolding a using Cons.IH by (simp add: insert_commute)
qed

lemma set_fetch_tags:
  "set (fetch_tags nc reps swt)
     \<subseteq> set swt \<union> (\<lambda>x. (fst x, get_servers_with_tag nc (fst x))) ` set reps"
proof (induction reps arbitrary: swt)
  case Nil
  then show ?case by simp
next
  case (Cons x reps)
  obtain tg c where x: "x = (tg, c)" by (cases x)
  show ?case
    using Cons.IH [of "map_insert tg (get_servers_with_tag nc tg) swt"]
          set_map_insert [of tg "get_servers_with_tag nc tg" swt]
    unfolding x by auto
qed

lemma keys_fetch_tags:
  "fst ` set (fetch_tags nc reps swt) = fst ` set swt \<union> fst ` set reps"
proof (induction reps arbitrary: swt)
  case Nil
  then show ?case by simp
next
  case (Cons x reps)
  obtain tg c where x: "x = (tg, c)" by (cases x)
  show ?case
    unfolding x by (simp add: Cons.IH keys_map_insert)
qed

lemma snapshot_tags_lookup:
  assumes "tg \<in> fst ` set (num_replicas params)"
  shows "map_of (snapshot_tags nc params) tg = Some (get_servers_with_tag nc tg)"
proof -
  let ?swt = "fetch_tags nc (num_replicas params) []"
  let ?snap = "snapshot_tags nc params"
  have sub: "set ?snap \<subseteq> (\<lambda>t. (t, get_servers_with_tag nc t)) ` UNIV"
    using set_fetch_tags [of nc "num_replicas params" "[]"]
          set_map_insert [of "director_tag params"
            "get_servers_with_tag nc (director_tag params)" ?swt]
    unfolding snapshot_tags_def Let_def by (auto split: if_splits)
  have "tg \<in> fst ` set ?swt"
    using assms by (simp add: keys_fetch_tags)
  then have "tg \<in> fst ` set ?snap"
    unfolding snapshot_tags_def Let_def by (auto simp: keys_map_insert)
  then obtain v where v: "map_of ?snap tg = Some v"
    by (metis domD dom_map_of_conv_image_fst)
  then have "(tg, v) \<in> set ?snap" by (rule map_of_SomeD)
  with sub have "v = get_servers_with_tag nc tg" by auto
  with v show ?thesis by simp
qed

lemma sublist_middle: "sublist xs (ps @ xs @ ss)"
  by (rule sublist_appendI)

lemma sublist_overlap_message:
  "sublist tag1 (overlap_message tag1 tag2 name)"
  "sublist tag2 (overlap_message tag1 tag2 name)"
  "sublist name (overlap_message tag1 tag2 name)"
proof -
  show "sublist tag1 (overlap_message tag1 tag2 name)"
    unfolding overlap_message_def by (rule sublist_middle)
  have "sublist tag2 ((''Server tags `'' @ tag1 @ ''` and `'') @ tag2
          @ (''` overlap; both contain server `'' @ name
             @ ''`. The server tags used for replication settings for a given table ''
             @ ''must be non-overlapping.''))"
    by (rule sublist_middle)
  then show "sublist tag2 (overlap_message tag1 tag2 name)"
    unfolding overlap_message_def by (simp only: append_assoc)
  have "sublist name ((''Server tags `'' @ tag1 @ ''` and `'' @ tag2
              @ ''` overlap; both contain server `'') @ name
          @ (''`. The server tags used for replication settings for a given table ''
             @ ''must be non-overlapping.''))"
    by (rule sublist_middle)
  then show "sublist name (overlap_message tag1 tag2 name)"
    unfolding overlap_message_def by (simp only: append_assoc)
qed

text \<open>
  C7 (as amended). Let the number of shards lie in 1..32 and the director tag have a
  count other than 0, so that the first three checks pass. If two distinct tags with a
  count above 0 share a server in the snapshot, \<open>validate_params\<close> returns false with the
  overlap message for two distinct tags with a count above 0 and a server that both
  contain (the first overlap in iteration order, which need not be the given one); the
  message contains the two tag names and the server name.
\<close>

theorem validate_params_overlap:
  assumes shards_ok: "0 < num_shards params" "num_shards params \<le> 32"
    and director_ok: "map_of (num_replicas params) (director_tag params) = Some c" "c \<noteq> 0"
    and keys: "distinct (map fst (num_replicas params))"
    and sets: "\<forall>tg. distinct (get_servers_with_tag name_client tg)"
    and t1: "(t1, c1) \<in> set (num_replicas params)" "0 < c1"
    and t2: "(t2, c2) \<in> set (num_replicas params)" "0 < c2"
    and differ: "t1 \<noteq> t2"
    and shared: "s \<in> set (get_servers_with_tag name_client t1)"
                "s \<in> set (get_servers_with_tag name_client t2)"
  shows "\<exists>ta tb x ca cb.
           validate_params params (snapshot_tags name_client params)
             = Inr (Some (overlap_message ta tb x))
           \<and> ta \<noteq> tb
           \<and> (ta, ca) \<in> set (num_replicas params) \<and> 0 < ca
           \<and> (tb, cb) \<in> set (num_replicas params) \<and> 0 < cb
           \<and> x \<in> set (get_servers_with_tag name_client ta)
           \<and> x \<in> set (get_servers_with_tag name_client tb)
           \<and> sublist ta (overlap_message ta tb x)
           \<and> sublist tb (overlap_message ta tb x)
           \<and> sublist x (overlap_message ta tb x)"
proof -
  let ?reps = "num_replicas params"
  let ?swt = "snapshot_tags name_client params"
  let ?sv = "get_servers_with_tag name_client"
  let ?T = "{tg. \<exists>k. (tg, k) \<in> set ?reps \<and> k \<noteq> 0}"
  have v: "validate_params params ?swt = check_overlap ?reps ?swt []"
    using shards_ok director_ok by (simp add: validate_params_def max_shards_def)
  have a1: "\<forall>x \<in> set ?reps. snd x \<noteq> 0 \<longrightarrow>
             map_of ?swt (fst x) = Some (?sv (fst x)) \<and> distinct (?sv (fst x)) \<and> fst x \<in> ?T"
  proof (intro ballI impI conjI)
    fix x assume x: "x \<in> set ?reps" "snd x \<noteq> 0"
    then show "map_of ?swt (fst x) = Some (?sv (fst x))"
      by (intro snapshot_tags_lookup) simp
    show "distinct (?sv (fst x))" using sets by simp
    obtain a b where ab: "x = (a, b)" by (cases x)
    with x have "(a, b) \<in> set ?reps" "b \<noteq> 0" by simp_all
    then show "fst x \<in> ?T" unfolding ab by auto
  qed
  have a3: "\<forall>n tg. map_of [] n = Some tg \<longrightarrow> tg \<notin> fst ` set ?reps \<and> n \<in> set (?sv tg) \<and> tg \<in> ?T"
    by simp
  from check_overlap_cases [of ?reps ?swt ?sv ?T "[]", OF a1 keys a3]
  show ?thesis
  proof
    assume "check_overlap ?reps ?swt [] = Inr None \<and> no_overlap ?sv ?reps []"
    then have "set (?sv (fst (t1, c1))) \<inter> set (?sv (fst (t2, c2))) = {}"
      unfolding no_overlap_def using t1 t2 differ by force
    with shared show ?thesis by auto
  next
    assume "names_overlap ?sv ?reps ?T (check_overlap ?reps ?swt [])"
    then obtain ta tb x where o:
      "check_overlap ?reps ?swt [] = Inr (Some (overlap_message ta tb x))" "ta \<noteq> tb"
      "\<exists>k. (ta, k) \<in> set ?reps \<and> k \<noteq> 0" "tb \<in> ?T" "x \<in> set (?sv ta)" "x \<in> set (?sv tb)"
      unfolding names_overlap_def by blast
    from o(3) obtain ca where ca: "(ta, ca) \<in> set ?reps" "0 < ca" by auto
    from o(4) obtain cb where cb: "(tb, cb) \<in> set ?reps" "0 < cb" by auto
    have "validate_params params ?swt = Inr (Some (overlap_message ta tb x))"
      using v o(1) by simp
    then show ?thesis
      using o(2,5,6) ca cb sublist_overlap_message by blast
  qed
qed


theorem validate_params_overlap_witness:
  "\<exists>ta tb x ca cb.
      validate_params overlap_params (snapshot_tags overlap_client overlap_params)
        = Inr (Some (overlap_message ta tb x))
      \<and> ta \<noteq> tb
      \<and> (ta, ca) \<in> set (num_replicas overlap_params) \<and> 0 < ca
      \<and> (tb, cb) \<in> set (num_replicas overlap_params) \<and> 0 < cb
      \<and> x \<in> set (get_servers_with_tag overlap_client ta)
      \<and> x \<in> set (get_servers_with_tag overlap_client tb)
      \<and> sublist ta (overlap_message ta tb x)
      \<and> sublist tb (overlap_message ta tb x)
      \<and> sublist x (overlap_message ta tb x)"
  by (rule validate_params_overlap [of overlap_params 1 overlap_client "''t1''" 1 "''t2''" 1 "''X''"])
     (simp_all add: overlap_params_def overlap_client_def)

text \<open>
  C7 (as stated) fails: with 0 shards the first check answers, and its message names
  neither tag, although \<open>t1\<close> and \<open>t2\<close> both have count 1 and share \<open>X\<close>.
\<close>

theorem validate_params_overlap_shadowed:
  "validate_params (overlap_params\<lparr>num_shards := 0\<rparr>)
       (snapshot_tags overlap_client (overlap_params\<lparr>num_shards := 0\<rparr>))
     = Inr (Some ''Every table must have at least one shard.'')
   \<and> \<not> sublist ''t1'' ''Every table must have at least one shard.''
   \<and> (''t1'', 1) \<in> set (num_replicas (overlap_params\<lparr>num_shards := 0\<rparr>))
   \<and> (''t2'', 1) \<in> set (num_replicas (overlap_params\<lparr>num_shards := 0\<rparr>))
   \<and> ''X'' \<in> set (get_servers_with_tag overlap_client ''t1'')
   \<and> ''X'' \<in> set (get_servers_with_tag overlap_client ''t2'')"
  by (simp add: validate_params_def overlap_params_def overlap_client_def sublist_code prefix_code)

section \<open>The selector\<close>

lemma insert_server_pairings_ok:
  "pairings x \<noteq> [] \<Longrightarrow> \<forall>y \<in> set ys. pairings y \<noteq> [] \<Longrightarrow> \<exists>zs. insert_server_pairings x ys = Inr zs"
proof (induction ys)
  case Nil
  then show ?case by simp
next
  case (Cons y ys)
  then obtain zs where "insert_server_pairings x ys = Inr zs" by auto
  moreover have "\<exists>b. server_pairings_less x y = Inr b"
    using Cons.prems by (cases "pairings x"; cases "pairings y") (simp_all add: server_pairings_less_def)
  then obtain b where "server_pairings_less x y = Inr b" ..
  ultimately show ?case by (cases b) simp_all
qed

lemma insert_server_pairings_cases:
  assumes "insert_server_pairings x (y # ys) = Inr zs"
  obtains "server_pairings_less x y = Inr True" "zs = x # y # ys"
  | zs' where "server_pairings_less x y = Inr False" "insert_server_pairings x ys = Inr zs'"
      "zs = y # zs'"
proof (cases "server_pairings_less x y")
  case (Inl e)
  with assms show ?thesis by simp
next
  case (Inr b)
  show ?thesis
  proof (cases b)
    case True
    with assms Inr show ?thesis by (intro that(1)) simp_all
  next
    case False
    note f = False
    show ?thesis
    proof (cases "insert_server_pairings x ys")
      case (Inl e)
      with assms Inr f show ?thesis by simp
    next
      case (Inr zs')
      with assms \<open>server_pairings_less x y = Inr b\<close> f show ?thesis
        by (intro that(2) [of zs']) simp_all
    qed
  qed
qed

lemma insert_server_pairings_set:
  "insert_server_pairings x ys = Inr zs \<Longrightarrow> set zs = insert x (set ys)"
proof (induction ys arbitrary: zs)
  case Nil
  then show ?case by auto
next
  case (Cons y ys)
  from Cons.prems show ?case
  proof (cases rule: insert_server_pairings_cases)
    case 1
    then show ?thesis by simp
  next
    case (2 zs')
    with Cons.IH [of zs'] show ?thesis by auto
  qed
qed
lemma insert_server_pairings_on:
  "insert_server_pairings x ys = Inr zs \<Longrightarrow>
     pairings_on sh zs = pairings_on sh ys + length (filter (\<lambda>p. shard p = sh) (pairings x))"
proof (induction ys arbitrary: zs)
  case Nil
  then show ?case by (auto simp: pairings_on_def)
next
  case (Cons y ys)
  from Cons.prems show ?case
  proof (cases rule: insert_server_pairings_cases)
    case 1
    then show ?thesis by (simp add: pairings_on_def)
  next
    case (2 zs')
    with Cons.IH [of zs'] show ?thesis by (simp add: pairings_on_def)
  qed
qed

lemma pick_body_InrE:
  assumes "pick_body env cap usage cb s = Inr s1"
  obtains sp rest p ps placed where
    "remaining s = sp # rest" "pairings sp = p # ps" "shard p < length (shard_replicas s)"
    "place_if_room cap usage cb s sp p = Inr placed"
    "put_back (snd placed) ps rest = Inr (remaining s1)"
    "maybe_yield env (yielder s) = Inr (yielder s1)"
    "shard_replicas s1 = shard_replicas (fst placed)"
    "total_replicas s1 = total_replicas (fst placed)"
    "cb_state s1 = cb_state (fst placed)"
proof (cases "remaining s")
  case Nil
  with assms show ?thesis by (simp add: pick_body_def)
next
  case (Cons sp rest)
  note r = Cons
  show ?thesis
  proof (cases "pairings sp")
    case Nil
    with assms r show ?thesis by (simp add: pick_body_def)
  next
    case (Cons p ps)
    note p = Cons
    have inr: "shard p < length (shard_replicas s)"
      using assms r p by (simp add: pick_body_def split: if_splits)
    show ?thesis
    proof (cases "place_if_room cap usage cb s sp p")
      case (Inl e)
      with assms r p show ?thesis by (simp add: pick_body_def split: if_splits)
    next
      case (Inr placed)
      note pl = Inr
      have ys: "yielder (fst placed) = yielder s"
        using pl by (auto simp: place_if_room_def split: if_splits sum.splits)
      show ?thesis
      proof (cases "put_back (snd placed) ps rest")
        case (Inl e)
        with assms r p pl show ?thesis by (simp add: pick_body_def split: if_splits)
      next
        case (Inr prs)
        note pb = Inr
        show ?thesis
        proof (cases "maybe_yield env (yielder (fst placed))")
          case (Inl e)
          with assms r p pl pb show ?thesis by (simp add: pick_body_def split: if_splits)
        next
          case (Inr y)
          with assms r p pl pb inr have "s1 = (fst placed)\<lparr>remaining := prs, yielder := y\<rparr>"
            by (simp add: pick_body_def)
          then show ?thesis
            using r p inr pl pb Inr ys by (intro that [of sp rest p ps placed]) simp_all
        qed
      qed
    qed
  qed
qed

lemma place_if_room_room:
  assumes "place_if_room cap usage cb s sp p = Inr placed"
    and "shard_replicas s ! shard p < cap"
  shows "cb (shard p) (server sp) (cb_state s) = Inr (cb_state (fst placed))"
    "shard_replicas (fst placed) = (shard_replicas s)[shard p := Suc (shard_replicas s ! shard p)]"
    "total_replicas (fst placed) = Suc (total_replicas s)"
    "snd placed = sp\<lparr>self_usage_cost := self_usage_cost sp + usage\<rparr>"
proof -
  from assms obtain st where st: "cb (shard p) (server sp) (cb_state s) = Inr st"
    by (cases "cb (shard p) (server sp) (cb_state s)") (simp_all add: place_if_room_def)
  with assms have pl: "placed = (s\<lparr>shard_replicas :=
                          (shard_replicas s)[shard p := Suc (shard_replicas s ! shard p)],
                        total_replicas := Suc (total_replicas s),
                        cb_state := st\<rparr>,
                     sp\<lparr>self_usage_cost := self_usage_cost sp + usage\<rparr>)"
    by (simp add: place_if_room_def)
  show "cb (shard p) (server sp) (cb_state s) = Inr (cb_state (fst placed))"
    "shard_replicas (fst placed) = (shard_replicas s)[shard p := Suc (shard_replicas s ! shard p)]"
    "total_replicas (fst placed) = Suc (total_replicas s)"
    "snd placed = sp\<lparr>self_usage_cost := self_usage_cost sp + usage\<rparr>"
    unfolding pl using st by simp_all
qed

lemma place_if_room_full:
  assumes "place_if_room cap usage cb s sp p = Inr placed"
    and "\<not> shard_replicas s ! shard p < cap"
  shows "placed = (s, sp)"
  using assms by (simp add: place_if_room_def)

lemma pick_loop_invariant:
  assumes "pick_loop env n cap usage cb s = Inr s'"
    and "I s"
    and step: "\<And>s s1. I s \<Longrightarrow> total_replicas s < n * cap \<Longrightarrow>
                 pick_body env cap usage cb s = Inr s1 \<Longrightarrow> I s1"
  shows "I s' \<and> \<not> total_replicas s' < n * cap"
  using assms
proof (induction env n cap usage cb s rule: pick_loop.induct)
  case (1 env n cap usage cb s)
  show ?case
  proof (cases "total_replicas s < n * cap")
    case True
    with "1.prems"(1) obtain s1 where
      b: "pick_body env cap usage cb s = Inr s1" and
      l: "pick_loop env n cap usage cb s1 = Inr s'"
      by (subst (asm) pick_loop.simps) (auto split: sum.splits)
    have "I s1" using "1.prems"(2) True b by (rule "1.prems"(3))
    with "1.IH" [OF True b l] "1.prems"(3) show ?thesis by blast
  next
    case False
    with "1.prems" show ?thesis
      by (subst (asm) pick_loop.simps) simp
  qed
qed


lemma sum_list_bump:
  "i < length xs \<Longrightarrow> sum_list (xs[i := Suc (xs ! i)]) = Suc (sum_list (xs::nat list))"
  by (simp add: sum_list_update)

lemma counters_step:
  assumes "counters_inv n cap s" and "pick_body env cap usage cb s = Inr s1"
  shows "counters_inv n cap s1"
  using assms(2)
proof (cases rule: pick_body_InrE)
  case (1 sp rest p ps placed)
  show ?thesis
  proof (cases "shard_replicas s ! shard p < cap")
    case True
    note room = place_if_room_room [OF 1(4) True]
    have "shard_replicas s1 = (shard_replicas s)[shard p := Suc (shard_replicas s ! shard p)]"
      "total_replicas s1 = Suc (total_replicas s)"
      using 1(7,8) room(2,3) by simp_all
    then show ?thesis
      using assms(1) 1(3) True
      by (auto simp: counters_inv_def sum_list_bump nth_list_update)
  next
    case False
    from place_if_room_full [OF 1(4) False] 1(7,8) assms(1) show ?thesis
      by (simp add: counters_inv_def)
  qed
qed

lemma sum_list_le_bound:
  "(\<forall>i < length xs. xs ! i \<le> c) \<Longrightarrow> sum_list (xs::nat list) \<le> length xs * c"
proof (induction xs)
  case Nil
  then show ?case by simp
next
  case (Cons x xs)
  have "x \<le> c" using Cons.prems by (auto dest: spec [of _ 0])
  moreover have "\<forall>i < length xs. xs ! i \<le> c"
    using Cons.prems by (auto dest: spec [of _ "Suc _"])
  ultimately show ?case using Cons.IH by simp
qed

lemma sum_list_less_bound:
  "(\<forall>i < length xs. xs ! i \<le> c) \<Longrightarrow> j < length xs \<Longrightarrow> xs ! j < c \<Longrightarrow>
     sum_list (xs::nat list) < length xs * c"
proof (induction xs arbitrary: j)
  case Nil
  then show ?case by simp
next
  case (Cons x xs)
  have x: "x \<le> c" using Cons.prems(1) by (auto dest: spec [of _ 0])
  have xs: "\<forall>i < length xs. xs ! i \<le> c"
    using Cons.prems(1) by (auto dest: spec [of _ "Suc _"])
  show ?case
  proof (cases j)
    case 0
    with Cons.prems(3) have "x < c" by simp
    with sum_list_le_bound [OF xs] show ?thesis by simp
  next
    case (Suc k)
    with Cons.prems have "k < length xs" "xs ! k < c" by simp_all
    from Cons.IH [OF xs this] x show ?thesis by simp
  qed
qed

lemma counters_done:
  assumes "counters_inv n cap s" and "\<not> total_replicas s < n * cap" and "sh < n"
  shows "shard_replicas s ! sh = cap"
proof (rule ccontr)
  assume "shard_replicas s ! sh \<noteq> cap"
  with assms(1,3) have "shard_replicas s ! sh < cap"
    by (auto simp: counters_inv_def dest!: spec [of _ sh])
  with assms(1,3) have "sum_list (shard_replicas s) < length (shard_replicas s) * cap"
    by (intro sum_list_less_bound [of _ _ sh]) (auto simp: counters_inv_def)
  with assms(1,2) show False by (simp add: counters_inv_def)
qed

lemma counters_pending:
  assumes "counters_inv n cap s" and "total_replicas s < n * cap"
  obtains sh where "sh < n" "shard_replicas s ! sh < cap"
proof -
  have "\<exists>sh < n. shard_replicas s ! sh < cap"
  proof (rule ccontr)
    assume none: "\<not> (\<exists>sh < n. shard_replicas s ! sh < cap)"
    have "\<forall>sh < n. shard_replicas s ! sh = cap"
    proof (intro allI impI)
      fix sh assume "sh < n"
      with assms(1) none have "shard_replicas s ! sh \<le> cap" "\<not> shard_replicas s ! sh < cap"
        by (auto simp: counters_inv_def)
      then show "shard_replicas s ! sh = cap" by simp
    qed
    then have "shard_replicas s = replicate n cap"
      using assms(1) by (auto simp: counters_inv_def list_eq_iff_nth_eq)
    then have "sum_list (shard_replicas s) = n * cap"
      by (simp add: sum_list_replicate)
    with assms show False by (simp add: counters_inv_def)
  qed
  then show ?thesis using that by blast
qed

lemma put_back_ok:
  assumes "\<forall>y \<in> set rest. pairings y \<noteq> []"
  shows "\<exists>prs. put_back sp ps rest = Inr prs"
  unfolding put_back_def using assms insert_server_pairings_ok [of "sp\<lparr>pairings := ps\<rparr>" rest]
  by (cases "ps = []") simp_all

lemma put_back_set:
  assumes "put_back sp ps rest = Inr prs"
  shows "set prs \<subseteq> insert (sp\<lparr>pairings := ps\<rparr>) (set rest)" "ps = [] \<Longrightarrow> prs = rest"
    "ps \<noteq> [] \<Longrightarrow> set prs = insert (sp\<lparr>pairings := ps\<rparr>) (set rest)"
  using assms unfolding put_back_def
  by (cases "ps = []"; auto dest: insert_server_pairings_set)+

lemma put_back_on:
  assumes "put_back sp ps rest = Inr prs"
  shows "pairings_on sh prs = pairings_on sh rest + length (filter (\<lambda>p. shard p = sh) ps)"
  using assms unfolding put_back_def
  by (cases "ps = []") (auto dest: insert_server_pairings_on [where sh = sh])

lemma maybe_yield_calm:
  "\<not> is_pulsed env (polls y) \<Longrightarrow> \<exists>y1. maybe_yield env y = Inr y1"
  by (simp add: maybe_yield_def Let_def)

lemma pairings_on_pos:
  assumes "0 < pairings_on sh prs"
  shows "prs \<noteq> []"
  using assms by (auto simp: pairings_on_def)

lemma pick_body_progress:
  assumes c: "counters_inv n cap s" and su: "supply_inv n cap s"
    and more: "total_replicas s < n * cap"
    and calm: "\<forall>k. \<not> is_pulsed env k"
    and cb: "\<And>sh name st. \<exists>st1. cb sh name st = Inr st1"
  shows "\<exists>s1. pick_body env cap usage cb s = Inr s1"
proof -
  from counters_pending [OF c more] obtain sh where sh: "sh < n" "shard_replicas s ! sh < cap" .
  with su have "0 < pairings_on sh (remaining s)"
    by (auto simp: supply_inv_def dest!: spec [of _ sh])
  then obtain sp rest where r: "remaining s = sp # rest"
    using pairings_on_pos by (cases "remaining s") auto
  with su obtain p ps where p: "pairings sp = p # ps"
    by (cases "pairings sp") (auto simp: supply_inv_def)
  from su r p c have inr: "shard p < length (shard_replicas s)"
    by (auto simp: supply_inv_def counters_inv_def)
  have "\<exists>placed. place_if_room cap usage cb s sp p = Inr placed"
  proof -
    from cb [of "shard p" "server sp" "cb_state s"] obtain st1 where
      "cb (shard p) (server sp) (cb_state s) = Inr st1" ..
    then show ?thesis by (simp add: place_if_room_def)
  qed
  then obtain placed where pl: "place_if_room cap usage cb s sp p = Inr placed" ..
  have ys: "yielder (fst placed) = yielder s"
    using pl by (auto simp: place_if_room_def split: if_splits sum.splits)
  from su r have "\<forall>y \<in> set rest. pairings y \<noteq> []" by (simp add: supply_inv_def)
  from put_back_ok [OF this] obtain prs where pb: "put_back (snd placed) ps rest = Inr prs"
    by blast
  from maybe_yield_calm [of env "yielder s"] calm obtain y where
    y: "maybe_yield env (yielder s) = Inr y" by blast
  show ?thesis
    using r p inr pl pb y ys by (simp add: pick_body_def)
qed

lemma supply_step:
  assumes c: "counters_inv n cap s" and su: "supply_inv n cap s"
    and b: "pick_body env cap usage cb s = Inr s1"
  shows "supply_inv n cap s1"
  using b
proof (cases rule: pick_body_InrE)
  case (1 sp rest p ps placed)
  have srv: "pairings (snd placed) = pairings sp"
    using 1(4) by (auto simp: place_if_room_def split: if_splits sum.splits)
  have rest_ok: "\<forall>x \<in> set rest. pairings x \<noteq> [] \<and> (\<forall>q \<in> set (pairings x). shard q < n)"
    and ps_ok: "\<forall>q \<in> set ps. shard q < n" and p_ok: "shard p < n"
    using su 1(1,2) by (auto simp: supply_inv_def)
  have elems: "\<forall>x \<in> set (remaining s1). pairings x \<noteq> [] \<and> (\<forall>q \<in> set (pairings x). shard q < n)"
  proof (cases "ps = []")
    case True
    with put_back_set(2) [OF 1(5)] rest_ok show ?thesis by simp
  next
    case False
    with put_back_set(3) [OF 1(5)] rest_ok ps_ok show ?thesis by auto
  qed
  have on: "\<And>sh. pairings_on sh (remaining s)
              = pairings_on sh (remaining s1) + (if shard p = sh then 1 else 0)"
    using put_back_on [OF 1(5)] 1(1,2) by (simp add: pairings_on_def)
  have enough: "\<forall>sh < n. cap \<le> shard_replicas s1 ! sh + pairings_on sh (remaining s1)"
  proof (intro allI impI)
    fix sh assume sh: "sh < n"
    from su sh have old: "cap \<le> shard_replicas s ! sh + pairings_on sh (remaining s)"
      by (simp add: supply_inv_def)
    show "cap \<le> shard_replicas s1 ! sh + pairings_on sh (remaining s1)"
    proof (cases "shard_replicas s ! shard p < cap")
      case True
      from place_if_room_room(2) [OF 1(4) True] 1(7)
      have "shard_replicas s1 = (shard_replicas s)[shard p := Suc (shard_replicas s ! shard p)]"
        by simp
      then show ?thesis
        using old on [of sh] 1(3) sh c
        by (cases "shard p = sh") (simp_all add: counters_inv_def)
    next
      case False
      from place_if_room_full [OF 1(4) False] 1(7)
      have same: "shard_replicas s1 = shard_replicas s" by simp
      show ?thesis
      proof (cases "shard p = sh")
        case True
        with False c sh have "shard_replicas s ! sh = cap"
          by (auto simp: counters_inv_def dest!: spec [of _ sh])
        with same show ?thesis by simp
      next
        case False
        with old on [of sh] same show ?thesis by simp
      qed
    qed
  qed
  from elems enough show ?thesis by (simp add: supply_inv_def)
qed

lemma calls_on_append:
  "calls_on sh (calls @ [(sh', name)]) = calls_on sh calls + (if sh' = sh then 1 else 0)"
  by (simp add: calls_on_def)

lemma calls_step:
  assumes c: "counters_inv n cap s" and ci: "calls_inv n s"
    and b: "pick_body env cap usage record_call s = Inr s1"
  shows "calls_inv n s1"
  using b
proof (cases rule: pick_body_InrE)
  case (1 sp rest p ps placed)
  show ?thesis
  proof (cases "shard_replicas s ! shard p < cap")
    case True
    note room = place_if_room_room [OF 1(4) True]
    from room(1) have "cb_state s1 = cb_state s @ [(shard p, server sp)]"
      using 1(9) by (simp add: record_call_def)
    moreover have "shard_replicas s1 = (shard_replicas s)[shard p := Suc (shard_replicas s ! shard p)]"
      "total_replicas s1 = Suc (total_replicas s)"
      using room(2,3) 1(7,8) by simp_all
    ultimately show ?thesis
      using ci c 1(3)
      by (auto simp: calls_inv_def counters_inv_def calls_on_append nth_list_update)
  next
    case False
    from place_if_room_full [OF 1(4) False] 1(7,8,9) ci show ?thesis
      by (simp add: calls_inv_def)
  qed
qed

lemma pick_loop_total:
  assumes "I s"
    and step: "\<And>s. I s \<Longrightarrow> total_replicas s < n * cap \<Longrightarrow>
                 \<exists>s1. pick_body env cap usage cb s = Inr s1 \<and> I s1"
  shows "\<exists>s'. pick_loop env n cap usage cb s = Inr s' \<and> I s' \<and> \<not> total_replicas s' < n * cap"
  using assms
proof (induction env n cap usage cb s rule: pick_loop.induct)
  case (1 env n cap usage cb s)
  show ?case
  proof (cases "total_replicas s < n * cap")
    case True
    from "1.prems"(2) [OF "1.prems"(1) True] obtain s1 where
      b: "pick_body env cap usage cb s = Inr s1" and i: "I s1" by blast
    from "1.IH" [OF True b i "1.prems"(2)] obtain s' where
      "pick_loop env n cap usage cb s1 = Inr s'" "I s'" "\<not> total_replicas s' < n * cap"
      by blast
    then show ?thesis
      using True b by (subst pick_loop.simps) auto
  next
    case False
    with "1.prems"(1) show ?thesis
      by (subst pick_loop.simps) simp
  qed
qed


text \<open>
  C4 (as amended). Let no server pairings in the collection be empty, every pairing be
  for a shard below \<open>num_shards\<close>, every shard below \<open>num_shards\<close> have at least
  \<open>num_replicas\<close> pairings in the collection, and the interruptor never be pulsed. Then
  the selector returns, and it has invoked the callback exactly
  \<open>num_shards * num_replicas\<close> times, exactly \<open>num_replicas\<close> times for every shard.
\<close>

theorem pick_best_pairings_places_all:
  assumes sound: "\<forall>sp \<in> set prs. pairings sp \<noteq> [] \<and> (\<forall>p \<in> set (pairings sp). shard p < n)"
    and enough: "\<forall>sh < n. cap \<le> pairings_on sh prs"
    and calm: "\<forall>k. \<not> is_pulsed env k"
  shows "\<exists>calls y1.
           pick_best_pairings env n cap prs usage y record_call [] = Inr (calls, y1)
           \<and> length calls = n * cap
           \<and> (\<forall>sh < n. calls_on sh calls = cap)"
proof -
  let ?I = "\<lambda>s. counters_inv n cap s \<and> supply_inv n cap s \<and> calls_inv n s"
  let ?s0 = "\<lparr>shard_replicas = replicate n 0, total_replicas = 0, remaining = prs,
              cb_state = [], yielder = y\<rparr> :: (nat \<times> name_string_t) list pick_state"
  have init: "?I ?s0"
    using sound enough
    by (simp add: counters_inv_def supply_inv_def calls_inv_def calls_on_def)
  have step: "\<exists>s1. pick_body env cap usage record_call s = Inr s1 \<and> ?I s1"
    if "?I s" "total_replicas s < n * cap" for s
  proof -
    from that have c: "counters_inv n cap s" and su: "supply_inv n cap s"
      and ci: "calls_inv n s" by simp_all
    have "\<exists>s1. pick_body env cap usage record_call s = Inr s1"
      using c su that(2) calm by (rule pick_body_progress) (simp add: record_call_def)
    then obtain s1 where b: "pick_body env cap usage record_call s = Inr s1" ..
    from counters_step [OF c b] supply_step [OF c su b] calls_step [OF c ci b] b
    show ?thesis by blast
  qed
  from pick_loop_total [of ?I ?s0 n cap env usage record_call, OF init step]
  obtain s' where l: "pick_loop env n cap usage record_call ?s0 = Inr s'"
    and i: "?I s'" and fin: "\<not> total_replicas s' < n * cap" by blast
  from i have c: "counters_inv n cap s'" and ci: "calls_inv n s'" by simp_all
  have each: "\<forall>sh < n. shard_replicas s' ! sh = cap"
    using counters_done [OF c fin] by simp
  have "total_replicas s' \<le> n * cap"
    using c sum_list_le_bound [of "shard_replicas s'" cap] by (simp add: counters_inv_def)
  with fin have tot: "total_replicas s' = n * cap" by simp
  have "pick_best_pairings env n cap prs usage y record_call [] = Inr (cb_state s', yielder s')"
    using l by (simp add: pick_best_pairings_def)
  moreover have "length (cb_state s') = n * cap"
    using ci tot by (simp add: calls_inv_def)
  moreover have "\<forall>sh < n. calls_on sh (cb_state s') = cap"
    using ci each by (simp add: calls_inv_def)
  ultimately show ?thesis by blast
qed

theorem pick_best_pairings_places_all_witness:
  "\<exists>calls y1.
      pick_best_pairings calm_env 2 1 two_by_two PRIMARY_USAGE_COST (new_yielder calm_env)
        record_call [] = Inr (calls, y1)
      \<and> length calls = 2 \<and> calls_on 0 calls = 1 \<and> calls_on 1 calls = 1"
proof -
  have sound: "\<forall>sp \<in> set two_by_two.
                 pairings sp \<noteq> [] \<and> (\<forall>p \<in> set (pairings sp). shard p < 2)"
    by (simp add: two_by_two_def)
  have enough: "\<forall>sh < 2. 1 \<le> pairings_on sh two_by_two"
    by (simp add: two_by_two_def pairings_on_def)
  have calm: "\<forall>k. \<not> is_pulsed calm_env k"
    by (simp add: calm_env_def)
  from pick_best_pairings_places_all [OF sound enough calm,
         of PRIMARY_USAGE_COST "new_yielder calm_env"]
  obtain calls y1 where
    r: "pick_best_pairings calm_env 2 1 two_by_two PRIMARY_USAGE_COST (new_yielder calm_env)
          record_call [] = Inr (calls, y1)"
       "length calls = 2 * 1" "\<forall>sh < 2. calls_on sh calls = 1"
    by blast
  from r(3) have "calls_on 0 calls = 1" "calls_on 1 calls = 1" by simp_all
  with r(1,2) show ?thesis by auto
qed


text \<open>
  C4 (as stated) fails: four pairings for two shards and a cap of 2, the number the claim
  asks for, but only one of them for shard 1. After three placements the multiset is
  empty and the loop dereferences \<open>pairings.begin()\<close> of an empty multiset.
\<close>

theorem selector_runs_dry:
  "pairings_left lopsided = 2 * 2
   \<and> pick_best_pairings calm_env 2 2 lopsided SECONDARY_USAGE_COST (new_yielder calm_env)
         record_call [] = Inl Undefined_behaviour"
  by (simp add: pick_best_pairings_def pick_loop.simps pick_body_def place_if_room_def
        put_back_def lopsided_def calm_env_def record_call_def maybe_yield_def new_yielder_def
        server_pairings_less_def pairing_less_def pairings_left_def SECONDARY_USAGE_COST_def
        Let_def)

section \<open>Directors and replicas of a successful plan\<close>

lemma director_callback_effect:
  assumes "director_callback sh name st = Inr st'"
  shows "sh < length (shards (fst st))"
    "length (shards (fst st')) = length (shards (fst st))"
    "director_placed (fst st') sh"
    "sh' \<noteq> sh \<Longrightarrow> shards (fst st') ! sh' = shards (fst st) ! sh'"
proof -
  from assms have inr: "sh < length (shards (fst st))"
    and emp: "director_names (shards (fst st) ! sh) = []"
    by (auto simp: director_callback_def Let_def split: if_splits)
  from assms inr emp obtain sp where sp: "map_of (snd st) name = Some sp"
    by (cases "map_of (snd st) name") (auto simp: director_callback_def Let_def)
  from assms inr emp sp have
    cfg: "shards (fst st') = (shards (fst st))
            [sh := (shards (fst st) ! sh)
               \<lparr>replica_names := finsert name (replica_names (shards (fst st) ! sh)),
                director_names := director_names (shards (fst st) ! sh) @ [name]\<rparr>]"
    by (auto simp: director_callback_def Let_def)
  show "sh < length (shards (fst st))" by (rule inr)
  show "length (shards (fst st')) = length (shards (fst st))" by (simp add: cfg)
  show "director_placed (fst st') sh"
    using inr emp by (simp add: cfg director_placed_def)
  show "shards (fst st') ! sh' = shards (fst st) ! sh'" if "sh' \<noteq> sh"
    using that by (simp add: cfg)
qed

lemma replica_callback_effect:
  assumes "replica_callback sh name config = Inr config'"
  shows "length (shards config') = length (shards config)"
    "director_placed config sh' \<Longrightarrow> director_placed config' sh'"
proof -
  from assms have inr: "sh < length (shards config)"
    by (auto simp: replica_callback_def split: if_splits)
  with assms have
    cfg: "shards config' = (shards config)
            [sh := (shards config ! sh)
               \<lparr>replica_names := finsert name (replica_names (shards config ! sh))\<rparr>]"
    by (auto simp: replica_callback_def)
  show "length (shards config') = length (shards config)" by (simp add: cfg)
  show "director_placed config' sh'" if "director_placed config sh'"
    using that inr by (cases "sh' = sh") (auto simp: cfg director_placed_def)
qed

lemma replica_callback_directors_placed:
  "directors_placed n config \<Longrightarrow> replica_callback sh name config = Inr config' \<Longrightarrow>
     directors_placed n config'"
  using replica_callback_effect [of sh name config config']
  by (simp add: directors_placed_def)

lemma replica_callback_length:
  "length (shards config) = n \<Longrightarrow> replica_callback sh name config = Inr config' \<Longrightarrow>
     length (shards config') = n"
  using replica_callback_effect(1) [of sh name config config'] by simp

lemma pick_loop_preserves:
  assumes "pick_loop env n cap usage cb s = Inr s'"
    and "Q (cb_state s)"
    and cb: "\<And>sh name st st'. Q st \<Longrightarrow> cb sh name st = Inr st' \<Longrightarrow> Q st'"
  shows "Q (cb_state s')"
proof -
  have "Q (cb_state s') \<and> \<not> total_replicas s' < n * cap"
  proof (rule pick_loop_invariant [of env n cap usage cb s s' "\<lambda>s. Q (cb_state s)"])
    show "pick_loop env n cap usage cb s = Inr s'" by (rule assms(1))
    show "Q (cb_state s)" by (rule assms(2))
    fix t t1
    assume q: "Q (cb_state t)" and b: "pick_body env cap usage cb t = Inr t1"
    from b show "Q (cb_state t1)"
    proof (cases rule: pick_body_InrE)
      case (1 sp rest p ps placed)
      show ?thesis
      proof (cases "shard_replicas t ! shard p < cap")
        case True
        from place_if_room_room(1) [OF 1(4) True] q 1(9) show ?thesis
          by (auto dest: cb)
      next
        case False
        from place_if_room_full [OF 1(4) False] 1(9) q show ?thesis by simp
      qed
    qed
  qed
  then show ?thesis ..
qed

lemma pick_best_pairings_preserves:
  assumes "pick_best_pairings env n cap prs usage y cb st = Inr r"
    and "Q st"
    and cb: "\<And>sh name st st'. Q st \<Longrightarrow> cb sh name st = Inr st' \<Longrightarrow> Q st'"
  shows "Q (fst r)"
proof -
  let ?s0 = "\<lparr>shard_replicas = replicate n 0, total_replicas = 0, remaining = prs,
              cb_state = st, yielder = y\<rparr>"
  from assms(1) obtain s' where l: "pick_loop env n cap usage cb ?s0 = Inr s'"
    and r: "r = (cb_state s', yielder s')"
    by (cases "pick_loop env n cap usage cb ?s0") (auto simp: pick_best_pairings_def)
  from pick_loop_preserves [of env n cap usage cb ?s0 s' Q, OF l _ cb] assms(2)
  show ?thesis by (simp add: r)
qed

lemma director_pick_places:
  assumes "pick_best_pairings env n 1 prs usage y director_callback st = Inr r"
    and len: "length (shards (fst st)) = n"
  shows "directors_placed n (fst (fst r))"
proof -
  let ?s0 = "\<lparr>shard_replicas = replicate n 0, total_replicas = 0, remaining = prs,
              cb_state = st, yielder = y\<rparr>"
  let ?I = "\<lambda>s. counters_inv n 1 s \<and> length (shards (fst (cb_state s))) = n
              \<and> (\<forall>sh < n. shard_replicas s ! sh = 1 \<longrightarrow> director_placed (fst (cb_state s)) sh)"
  from assms(1) obtain s' where l: "pick_loop env n 1 usage director_callback ?s0 = Inr s'"
    and r: "r = (cb_state s', yielder s')"
    by (cases "pick_loop env n 1 usage director_callback ?s0")
       (auto simp: pick_best_pairings_def)
  have "?I s' \<and> \<not> total_replicas s' < n * 1"
  proof (rule pick_loop_invariant [of env n 1 usage director_callback ?s0 s' ?I])
    show "pick_loop env n 1 usage director_callback ?s0 = Inr s'" by (rule l)
    show "?I ?s0" using len by (simp add: counters_inv_def)
    fix t t1
    assume i: "?I t" and b: "pick_body env 1 usage director_callback t = Inr t1"
    from i have c: "counters_inv n 1 t" by simp
    note c1 = counters_step [OF c b]
    from b have "length (shards (fst (cb_state t1))) = n
              \<and> (\<forall>sh < n. shard_replicas t1 ! sh = 1 \<longrightarrow> director_placed (fst (cb_state t1)) sh)"
    proof (cases rule: pick_body_InrE)
      case (1 sp rest p ps placed)
      show ?thesis
      proof (cases "shard_replicas t ! shard p < 1")
        case True
        note room = place_if_room_room [OF 1(4) True]
        from room(1) 1(9) have
          cb: "director_callback (shard p) (server sp) (cb_state t) = Inr (cb_state t1)" by simp
        note eff = director_callback_effect [OF cb]
        have sr: "shard_replicas t1 = (shard_replicas t)[shard p := Suc (shard_replicas t ! shard p)]"
          using room(2) 1(7) by simp
        have "director_placed (fst (cb_state t1)) sh"
          if "sh < n" "shard_replicas t1 ! sh = 1" for sh
        proof (cases "sh = shard p")
          case True
          with eff(3) show ?thesis by simp
        next
          case False
          with that sr have "shard_replicas t ! sh = 1" by simp
          with i that(1) have "director_placed (fst (cb_state t)) sh" by simp
          with eff(4) [of sh] False show ?thesis by (simp add: director_placed_def)
        qed
        with eff(2) i show ?thesis by simp
      next
        case False
        from place_if_room_full [OF 1(4) False] 1(7,9) i show ?thesis by simp
      qed
    qed
    with c1 show "?I t1" by simp
  qed
  then have i: "?I s'" and fin: "\<not> total_replicas s' < n * 1" by simp_all
  from i have c: "counters_inv n 1 s'" by simp
  have "\<forall>sh < n. shard_replicas s' ! sh = 1"
    using counters_done [OF c fin] by simp
  with i show ?thesis by (simp add: directors_placed_def r)
qed


lemma director_phase_places:
  assumes "director_phase env params y config pmap = Inr d"
    and "length (shards config) = num_shards params"
  shows "directors_placed (num_shards params) (fst d)"
proof -
  from assms(1) obtain s where "collect_pairings pmap [] = Inr s"
    by (cases "collect_pairings pmap []") (simp_all add: director_phase_def)
  with assms(1) obtain r where
    r: "pick_best_pairings env (num_shards params) 1 s PRIMARY_USAGE_COST y
          director_callback (config, pmap) = Inr r"
    and d: "d = (fst (fst r), snd (fst r), snd r)"
    by (cases "pick_best_pairings env (num_shards params) 1 s PRIMARY_USAGE_COST y
                 director_callback (config, pmap)")
       (simp_all add: director_phase_def)
  from director_pick_places [OF r] assms(2) show ?thesis by (simp add: d)
qed

lemma replica_phase_preserves:
  assumes "replica_phase env params cap y config pmap = Inr r"
    and "Q config"
    and "\<And>sh name st st'. Q st \<Longrightarrow> replica_callback sh name st = Inr st' \<Longrightarrow> Q st'"
  shows "Q (fst r)"
proof -
  from assms(1) obtain s where "collect_pairings pmap [] = Inr s"
    by (cases "collect_pairings pmap []") (simp_all add: replica_phase_def)
  with assms(1) have
    "pick_best_pairings env (num_shards params) cap s SECONDARY_USAGE_COST y
       replica_callback config = Inr r"
    by (simp add: replica_phase_def)
  from pick_best_pairings_preserves [OF this, of Q] assms(2,3) show ?thesis by blast
qed

lemma place_tag_NoneE:
  assumes "place_tag env ops table_id dm usage params scheme swt tag cnt st = Inr (None, st')"
  obtains names built directed placed where
    "map_at swt tag = Inr names" "\<not> length names < cnt"
    "tag_pairings env ops table_id dm usage params scheme names [] (plan_yielder st) = Inr built"
    "(if tag = director_tag params
      then director_phase env params (snd built) (config_out st) (fst built)
      else Inr (config_out st, fst built, snd built)) = Inr directed"
    "replica_phase env params (cnt - (if tag = director_tag params then 1 else 0))
       (snd (snd directed)) (fst directed) (fst (snd directed)) = Inr placed"
    "st' = st\<lparr>replicas_wanted := replicas_wanted st + cnt, config_out := fst placed,
              plan_yielder := snd placed\<rparr>"
proof (cases "map_at swt tag")
  case (Inl e)
  with assms show ?thesis by (simp add: place_tag_def)
next
  case (Inr names)
  note n = Inr
  with assms have enough: "\<not> length names < cnt"
    by (auto simp: place_tag_def Let_def split: if_splits)
  show ?thesis
  proof (cases "tag_pairings env ops table_id dm usage params scheme names [] (plan_yielder st)")
    case (Inl e)
    with assms n enough show ?thesis by (simp add: place_tag_def)
  next
    case (Inr built)
    note b = Inr
    let ?d = "if tag = director_tag params
      then director_phase env params (snd built) (config_out st) (fst built)
      else Inr (config_out st, fst built, snd built)"
    show ?thesis
    proof (cases ?d)
      case (Inl e)
      with assms n enough b show ?thesis
        by (simp add: place_tag_def Let_def split: if_splits)
    next
      case (Inr directed)
      note d = Inr
      show ?thesis
      proof (cases "replica_phase env params (cnt - (if tag = director_tag params then 1 else 0))
                      (snd (snd directed)) (fst directed) (fst (snd directed))")
        case (Inl e)
        with assms n enough b d show ?thesis
          by (simp add: place_tag_def Let_def split: if_splits)
      next
        case (Inr placed)
        with assms n enough b d have
          "st' = st\<lparr>replicas_wanted := replicas_wanted st + cnt, config_out := fst placed,
              plan_yielder := snd placed\<rparr>"
          by (simp add: place_tag_def Let_def split: if_splits)
        with n enough b d Inr show ?thesis by (rule that)
      qed
    qed
  qed
qed

lemma place_tag_wanted:
  assumes "place_tag env ops table_id dm usage params scheme swt tag cnt st = Inr (None, st')"
  shows "replicas_wanted st' = replicas_wanted st + cnt"
  using assms by (cases rule: place_tag_NoneE) simp

lemma place_tag_length:
  assumes "place_tag env ops table_id dm usage params scheme swt tag cnt st = Inr (None, st')"
    and "length (shards (config_out st)) = num_shards params"
  shows "length (shards (config_out st')) = num_shards params"
  using assms(1)
proof (cases rule: place_tag_NoneE)
  case (1 names built directed placed)
  have "length (shards (fst directed)) = num_shards params"
  proof (cases "tag = director_tag params")
    case True
    with 1(4) have "director_phase env params (snd built) (config_out st) (fst built) = Inr directed"
      by simp
    from director_phase_places [OF this assms(2)] show ?thesis
      by (simp add: directors_placed_def)
  next
    case False
    with 1(4) assms(2) show ?thesis by auto
  qed
  from replica_phase_preserves [OF 1(5), of "\<lambda>c. length (shards c) = num_shards params", OF this]
  have "length (shards (fst placed)) = num_shards params"
    by (auto dest: replica_callback_length)
  with 1(6) show ?thesis by simp
qed

lemma place_tag_directors:
  assumes "place_tag env ops table_id dm usage params scheme swt tag cnt st = Inr (None, st')"
    and "length (shards (config_out st)) = num_shards params"
    and "tag = director_tag params \<or> directors_placed (num_shards params) (config_out st)"
  shows "directors_placed (num_shards params) (config_out st')"
  using assms(1)
proof (cases rule: place_tag_NoneE)
  case (1 names built directed placed)
  have "directors_placed (num_shards params) (fst directed)"
  proof (cases "tag = director_tag params")
    case True
    with 1(4) have "director_phase env params (snd built) (config_out st) (fst built) = Inr directed"
      by simp
    from director_phase_places [OF this assms(2)] show ?thesis .
  next
    case False
    with 1(4) assms(3) show ?thesis by auto
  qed
  from replica_phase_preserves [OF 1(5), of "directors_placed (num_shards params)", OF this]
  have "directors_placed (num_shards params) (fst placed)"
    by (auto dest: replica_callback_directors_placed)
  with 1(6) show ?thesis by simp
qed

lemma place_tags_result:
  assumes "place_tags env ops table_id dm usage params scheme swt reps st = Inr (None, st')"
    and "length (shards (config_out st)) = num_shards params"
  shows "replicas_wanted st' = replicas_wanted st + sum_list (map snd reps)"
    and "length (shards (config_out st')) = num_shards params"
    and "(\<exists>c. (director_tag params, c) \<in> set reps \<and> c \<noteq> 0)
           \<or> directors_placed (num_shards params) (config_out st)
         \<Longrightarrow> directors_placed (num_shards params) (config_out st')"
  using assms
proof (induction reps arbitrary: st)
  case Nil
  { case 1 then show ?case by simp }
  { case 2 then show ?case by simp }
  { case 3 then show ?case by auto }
next
  case (Cons x reps)
  obtain tag cnt where x: "x = (tag, cnt)" by (cases x)
  have step: "\<exists>st1. (cnt = 0 \<and> st1 = st \<or> cnt \<noteq> 0 \<and>
                place_tag env ops table_id dm usage params scheme swt tag cnt st = Inr (None, st1))
              \<and> place_tags env ops table_id dm usage params scheme swt reps st1 = Inr (None, st')"
    if "place_tags env ops table_id dm usage params scheme swt (x # reps) st = Inr (None, st')"
    for st
  proof (cases "cnt = 0")
    case True
    with that x show ?thesis by simp
  next
    case False
    show ?thesis
    proof (cases "place_tag env ops table_id dm usage params scheme swt tag cnt st")
      case (Inl e)
      with that x False show ?thesis by simp
    next
      case (Inr r)
      obtain m st1 where r: "r = (m, st1)" by (cases r)
      show ?thesis
      proof (cases m)
        case None
        with that x False Inr r show ?thesis by simp
      next
        case (Some msg)
        with that x False Inr r show ?thesis by simp
      qed
    qed
  qed
  { case 1
    from step [OF 1(1)] obtain st1 where
      h: "cnt = 0 \<and> st1 = st \<or> cnt \<noteq> 0 \<and>
            place_tag env ops table_id dm usage params scheme swt tag cnt st = Inr (None, st1)"
      and t: "place_tags env ops table_id dm usage params scheme swt reps st1 = Inr (None, st')"
      by blast
    from h 1(2) have len: "length (shards (config_out st1)) = num_shards params"
      by (auto dest: place_tag_length)
    from h have "replicas_wanted st1 = replicas_wanted st + cnt"
      by (auto dest: place_tag_wanted)
    with Cons.IH(1) [OF t len] x show ?case by simp }
  { case 2
    from step [OF 2(1)] obtain st1 where
      h: "cnt = 0 \<and> st1 = st \<or> cnt \<noteq> 0 \<and>
            place_tag env ops table_id dm usage params scheme swt tag cnt st = Inr (None, st1)"
      and t: "place_tags env ops table_id dm usage params scheme swt reps st1 = Inr (None, st')"
      by blast
    from h 2(2) have len: "length (shards (config_out st1)) = num_shards params"
      by (auto dest: place_tag_length)
    from Cons.IH(2) [OF t len] show ?case . }
  { case 3
    from step [OF 3(2)] obtain st1 where
      h: "cnt = 0 \<and> st1 = st \<or> cnt \<noteq> 0 \<and>
            place_tag env ops table_id dm usage params scheme swt tag cnt st = Inr (None, st1)"
      and t: "place_tags env ops table_id dm usage params scheme swt reps st1 = Inr (None, st')"
      by blast
    from h 3(3) have len: "length (shards (config_out st1)) = num_shards params"
      by (auto dest: place_tag_length)
    have "(\<exists>c. (director_tag params, c) \<in> set reps \<and> c \<noteq> 0)
           \<or> directors_placed (num_shards params) (config_out st1)"
    proof (cases "\<exists>c. (director_tag params, c) \<in> set reps \<and> c \<noteq> 0")
      case True
      then show ?thesis ..
    next
      case False
      with 3(1) x have "tag = director_tag params \<and> cnt \<noteq> 0
                        \<or> directors_placed (num_shards params) (config_out st)" by auto
      with h 3(3) have "directors_placed (num_shards params) (config_out st1)"
        by (auto dest: place_tag_directors)
      then show ?thesis ..
    qed
    from Cons.IH(3) [OF this t len] show ?case . }
qed


lemma check_shards_ok:
  "check_shards config wanted shs = Inr u \<Longrightarrow> sh \<in> set shs \<Longrightarrow>
     sh < length (shards config)
     \<and> fcard (replica_names (shards config ! sh)) = wanted
     \<and> length (director_names (shards config ! sh)) = 1"
  by (induction shs) (auto split: if_splits)

lemma validate_params_director:
  assumes "validate_params params swt = Inr None"
  shows "\<exists>c. (director_tag params, c) \<in> set (num_replicas params) \<and> c \<noteq> 0"
proof -
  from assms have "map_of (num_replicas params) (director_tag params) \<noteq> None"
    "map_of (num_replicas params) (director_tag params) \<noteq> Some 0"
    by (auto simp: validate_params_def split: if_splits)
  then obtain c where "map_of (num_replicas params) (director_tag params) = Some c" "c \<noteq> 0"
    by auto
  then show ?thesis by (auto dest: map_of_SomeD)
qed

lemma table_generate_config_TrueE:
  assumes "table_generate_config env (ops :: 'r region_ops) name_client table_id directory_view
             server_usage params shard_scheme config0 error0 = Inr (True, config, msg)"
  obtains f :: "'r directory_fetch" and y1 st where
    "validate_params params (snapshot_tags name_client params) = Inr None"
    "maybe_yield env (new_yielder env) = Inr y1"
    "place_tags env ops table_id (directory_metadata f) server_usage params shard_scheme
       (snapshot_tags name_client params) (num_replicas params)
       \<lparr>config_out = config0\<lparr>shards := resize (num_shards params) new_shard (shards config0)\<rparr>,
        replicas_wanted = 0, plan_yielder = y1\<rparr> = Inr (None, st)"
    "check_shards (config_out st) (replicas_wanted st) [0..<num_shards params] = Inr ()"
    "config = config_out st" "msg = error0"
proof -
  let ?swt = "snapshot_tags name_client params"
  let ?f = "if table_id \<noteq> nil_uuid
            then fetch_directory name_client directory_view table_id ?swt no_fetch
            else no_fetch"
  have v: "validate_params params ?swt = Inr None"
  proof (cases "validate_params params ?swt")
    case (Inl e)
    with assms show ?thesis by (simp add: table_generate_config_def Let_def)
  next
    case (Inr m)
    with assms show ?thesis by (cases m) (simp_all add: table_generate_config_def Let_def)
  qed
  have m: "missing ?f = []" "colliding ?f = []"
    using assms v by (auto simp: table_generate_config_def Let_def split: if_splits)
  obtain y1 where y: "maybe_yield env (new_yielder env) = Inr y1"
    using assms v m
    by (cases "maybe_yield env (new_yielder env)")
       (auto simp: table_generate_config_def Let_def split: if_splits)
  let ?st0 = "\<lparr>config_out = config0\<lparr>shards := resize (num_shards params) new_shard (shards config0)\<rparr>,
        replicas_wanted = 0, plan_yielder = y1\<rparr>"
  let ?p = "place_tags env ops table_id (directory_metadata ?f) server_usage params shard_scheme
       ?swt (num_replicas params) ?st0"
  have red: "table_generate_config env ops name_client table_id directory_view server_usage
             params shard_scheme config0 error0
     = (case ?p of
          Inl e \<Rightarrow> Inl e
        | Inr (Some msg, st) \<Rightarrow> Inr (False, config_out st, msg)
        | Inr (None, st) \<Rightarrow>
            (case check_shards (config_out st) (replicas_wanted st) [0..<num_shards params] of
               Inl e \<Rightarrow> Inl e
             | Inr u \<Rightarrow> Inr (True, config_out st, error0)))"
    using v m y by (simp add: table_generate_config_def Let_def)
  obtain st where p: "?p = Inr (None, st)"
  proof (cases ?p)
    case (Inl e)
    with assms red show ?thesis by simp
  next
    case (Inr r)
    obtain mm st where r: "r = (mm, st)" by (cases r)
    show ?thesis
    proof (cases mm)
      case None
      with Inr r that show ?thesis by simp
    next
      case (Some a)
      with assms red Inr r show ?thesis by simp
    qed
  qed
  have c: "check_shards (config_out st) (replicas_wanted st) [0..<num_shards params] = Inr ()"
    and cfg: "config = config_out st" "msg = error0"
    using assms red p
    by (cases "check_shards (config_out st) (replicas_wanted st) [0..<num_shards params]";
        simp)+
  from v y p c cfg show ?thesis by (rule that)
qed

text \<open>
  C3. Whenever \<open>table_generate_config\<close> returns true, the output has \<open>num_shards\<close> shards,
  and every shard has exactly one director, which is among its replicas, and as many
  replicas as the counts of all tags add up to. The caller's \<open>config_out\<close> may hold
  anything at the call.
\<close>

theorem successful_plan_has_directors_and_replicas:
  assumes "table_generate_config env ops name_client table_id directory_view server_usage
             params shard_scheme config0 error0 = Inr (True, config, msg)"
  shows "length (shards config) = num_shards params
         \<and> (\<forall>sh < num_shards params.
               \<exists>d. director_names (shards config ! sh) = [d]
                   \<and> d |\<in>| replica_names (shards config ! sh)
                   \<and> fcard (replica_names (shards config ! sh))
                       = sum_list (map snd (num_replicas params)))"
  using assms
proof (cases rule: table_generate_config_TrueE)
  case (1 f y1 st)
  let ?n = "num_shards params"
  let ?st0 = "\<lparr>config_out = config0\<lparr>shards := resize ?n new_shard (shards config0)\<rparr>,
                replicas_wanted = 0, plan_yielder = y1\<rparr>"
  have len0: "length (shards (config_out ?st0)) = ?n"
    by (simp add: resize_def)
  note res = place_tags_result [OF 1(3) len0]
  from res(1) have wanted: "replicas_wanted st = sum_list (map snd (num_replicas params))"
    by simp
  from res(3) validate_params_director [OF 1(1)]
  have placed: "directors_placed ?n (config_out st)" by blast
  have "\<exists>d. director_names (shards config ! sh) = [d]
           \<and> d |\<in>| replica_names (shards config ! sh)
           \<and> fcard (replica_names (shards config ! sh)) = sum_list (map snd (num_replicas params))"
    if "sh < ?n" for sh
  proof -
    from that have "sh \<in> set [0..<?n]" by simp
    from check_shards_ok [OF 1(4) this] wanted 1(5) have
      card: "fcard (replica_names (shards config ! sh)) = sum_list (map snd (num_replicas params))"
      and one: "length (director_names (shards config ! sh)) = 1" by simp_all
    from one obtain d where d: "director_names (shards config ! sh) = [d]"
      by (cases "director_names (shards config ! sh)") auto
    from placed that 1(5) have "set (director_names (shards config ! sh))
                                  \<subseteq> fset (replica_names (shards config ! sh))"
      by (simp add: directors_placed_def director_placed_def)
    with d have "d |\<in>| replica_names (shards config ! sh)" by simp
    with d card show ?thesis by simp
  qed
  with res(2) 1(5) show ?thesis by simp
qed


text \<open>Evaluation of the planner on concrete inputs.\<close>

lemma maybe_yield_advance:
  "\<not> is_pulsed env (polls y) \<Longrightarrow> maybe_yield env y = Inr (advance env y)"
  by (simp add: maybe_yield_def advance_def Let_def)

lemma insert_server_pairings_if:
  "insert_server_pairings x (y # ys) =
     (case server_pairings_less x y of
        Inl e \<Rightarrow> Inl e
      | Inr b \<Rightarrow>
          if b then Inr (x # y # ys)
          else (case insert_server_pairings x ys of
                  Inl e \<Rightarrow> Inl e
                | Inr zs \<Rightarrow> Inr (y # zs)))"
  by (simp split: sum.splits bool.splits)

lemmas planner_defs =
  table_generate_config_def snapshot_tags_def validate_params_def max_shards_def
  place_tag_def director_phase_def replica_phase_def server_pairings_of_def
  pairing_backfill_cost_def nil_uuid_def pick_best_pairings_def pick_loop.simps pick_body_def
  place_if_room_def put_back_def maybe_yield_advance director_callback_def
  replica_callback_def resize_def new_shard_def map_at_def no_fetch_def
  server_pairings_less_def pairing_less_def Let_def PRIMARY_USAGE_COST_def
  SECONDARY_USAGE_COST_def eval_nat_numeral upt_rec fcard_finsert_if

lemma s2_run:
  "table_generate_config calm_env key_set_ops abc_client nil_uuid (\<lambda>p. None) (\<lambda>n. None)
     s2_params (\<lambda>sh. {sh}) \<lparr>shards = []\<rparr> '''' = Inr (True, s2_config, '''')"
  by (simp add: planner_defs abc_client_def s2_params_def s2_config_def calm_env_def)

theorem successful_plan_witness:
  "table_generate_config calm_env key_set_ops abc_client nil_uuid (\<lambda>p. None) (\<lambda>n. None)
     s2_params (\<lambda>sh. {sh}) \<lparr>shards = []\<rparr> '''' = Inr (True, s2_config, '''')
   \<and> length (shards s2_config) = num_shards s2_params
   \<and> (\<exists>d. director_names (shards s2_config ! 1) = [d]
           \<and> d |\<in>| replica_names (shards s2_config ! 1)
           \<and> fcard (replica_names (shards s2_config ! 1))
               = sum_list (map snd (num_replicas s2_params)))"
proof -
  from successful_plan_has_directors_and_replicas [OF s2_run]
  have "length (shards s2_config) = num_shards s2_params"
    and "\<forall>sh < num_shards s2_params.
           \<exists>d. director_names (shards s2_config ! sh) = [d]
               \<and> d |\<in>| replica_names (shards s2_config ! sh)
               \<and> fcard (replica_names (shards s2_config ! sh))
                   = sum_list (map snd (num_replicas s2_params))"
    by simp_all
  moreover have "1 < num_shards s2_params" by (simp add: s2_params_def)
  ultimately show ?thesis using s2_run by blast
qed

section \<open>Scenario S2: three directors on three servers\<close>

text \<open>
  C6. A new table with 3 shards, one tag whose servers are the three distinct servers
  \<open>a\<close>, \<open>b\<close>, \<open>c\<close>, with replica count 1, which is the director tag: whatever the usage of the
  servers by other tables, \<open>table_generate_config\<close> returns true, and the three shards
  have one director each, the three directors being \<open>a\<close>, \<open>b\<close> and \<open>c\<close> in some order. The
  caller passes a fresh \<open>config_out\<close>, and the interruptor is not pulsed.
\<close>

theorem three_directors_distinct:
  assumes order: "a < b" "b < c"
    and tag: "get_servers_with_tag name_client tag = [a, b, c]"
    and calm: "\<forall>k. \<not> is_pulsed env k"
  shows "\<exists>config.
           table_generate_config env ops name_client nil_uuid directory_view server_usage
             \<lparr>num_shards = 3, num_replicas = [(tag, 1)], director_tag = tag\<rparr>
             shard_scheme \<lparr>shards = []\<rparr> error0 = Inr (True, config, error0)
           \<and> (\<exists>d0 d1 d2. directors_of config = [[d0], [d1], [d2]]
                 \<and> distinct [d0, d1, d2] \<and> {d0, d1, d2} = {a, b, c})"
proof -
  obtain oa ob oc where o:
    "(case server_usage a of None \<Rightarrow> 0 | Some u \<Rightarrow> u) = oa"
    "(case server_usage b of None \<Rightarrow> 0 | Some u \<Rightarrow> u) = ob"
    "(case server_usage c of None \<Rightarrow> 0 | Some u \<Rightarrow> u) = oc" by simp
  from order have n: "a < c" "a \<noteq> b" "a \<noteq> c" "b \<noteq> c" "b \<noteq> a" "c \<noteq> a" "c \<noteq> b"
    "\<not> b < a" "\<not> c < a" "\<not> c < b" by auto
  show ?thesis
    using order n tag calm o
    by (simp add: planner_defs directors_of_def insert_commute insert_server_pairings_if
          del: insert_server_pairings.simps(2))
qed

theorem three_directors_distinct_witness:
  "\<exists>config.
      table_generate_config calm_env key_set_ops abc_client nil_uuid (\<lambda>p. None) (\<lambda>n. None)
        \<lparr>num_shards = 3, num_replicas = [(''default'', 1)], director_tag = ''default''\<rparr>
        (\<lambda>sh. {sh}) \<lparr>shards = []\<rparr> '''' = Inr (True, config, '''')
      \<and> (\<exists>d0 d1 d2. directors_of config = [[d0], [d1], [d2]]
            \<and> distinct [d0, d1, d2] \<and> {d0, d1, d2} = {''A'', ''B'', ''C''})"
  by (rule three_directors_distinct) (simp_all add: abc_client_def calm_env_def)

section \<open>A failure after the first tag keeps the placements made\<close>

lemma place_tags_append:
  "place_tags env ops table_id dm usage params scheme swt (pre @ rest) st =
     (case place_tags env ops table_id dm usage params scheme swt pre st of
        Inl e \<Rightarrow> Inl e
      | Inr r \<Rightarrow>
          (case fst r of
             Some msg \<Rightarrow> Inr r
           | None \<Rightarrow> place_tags env ops table_id dm usage params scheme swt rest (snd r)))"
proof (induction pre arbitrary: st)
  case Nil
  then show ?case by simp
next
  case (Cons x pre)
  show ?case
  proof (cases "snd x = 0")
    case True
    then show ?thesis by (simp add: Cons.IH)
  next
    case False
    show ?thesis
    proof (cases "place_tag env ops table_id dm usage params scheme swt (fst x) (snd x) st")
      case (Inl e)
      with False show ?thesis by simp
    next
      case (Inr r)
      obtain m st1 where r: "r = (m, st1)" by (cases r)
      show ?thesis
        using False Inr r by (cases m) (simp_all add: Cons.IH)
    qed
  qed
qed

lemma place_tag_too_few:
  assumes "map_at swt tag = Inr names" and "length names < cnt"
  shows "place_tag env ops table_id dm usage params scheme swt tag cnt st
         = Inr (Some (too_few_servers_message cnt tag (length names)),
                st\<lparr>replicas_wanted := replicas_wanted st + cnt\<rparr>)"
  using assms by (simp add: place_tag_def)

text \<open>
  C10. Let the parameters be valid, the directory be fetched without a missing or
  colliding server, and the tags before \<open>tag\<close> in the iteration order be placed, which
  leaves the planner in state \<open>st\<close>. If \<open>tag\<close> asks for more replicas than it has servers,
  \<open>table_generate_config\<close> returns false with the message of that tag, and \<open>config_out\<close>
  is what the earlier tags left: the vector resized to \<open>num_shards\<close> shards with every
  director and replica placed so far. Nothing is rolled back.
\<close>

theorem insufficient_servers_keeps_placements:
  fixes ops :: "'r region_ops"
  defines "f \<equiv> \<lambda>name_client (directory_view :: 'r directory_t) table_id params.
               if table_id \<noteq> nil_uuid
               then fetch_directory name_client directory_view table_id
                      (snapshot_tags name_client params) no_fetch
               else no_fetch"
  assumes valid: "validate_params params (snapshot_tags name_client params) = Inr None"
    and fetched: "missing (f name_client directory_view table_id params) = []"
                 "colliding (f name_client directory_view table_id params) = []"
    and yielded: "maybe_yield env (new_yielder env) = Inr y1"
    and tags: "num_replicas params = earlier @ (tag, cnt) # later"
    and earlier: "place_tags env ops table_id
                    (directory_metadata (f name_client directory_view table_id params))
                    server_usage params shard_scheme (snapshot_tags name_client params) earlier
                    \<lparr>config_out =
                       config0\<lparr>shards := resize (num_shards params) new_shard (shards config0)\<rparr>,
                     replicas_wanted = 0, plan_yielder = y1\<rparr> = Inr (None, st)"
    and too_few: "length (get_servers_with_tag name_client tag) < cnt"
  shows "table_generate_config env ops name_client table_id directory_view server_usage params
           shard_scheme config0 error0
         = Inr (False, config_out st,
                too_few_servers_message cnt tag (length (get_servers_with_tag name_client tag)))
         \<and> length (shards (config_out st)) = num_shards params"
proof -
  let ?swt = "snapshot_tags name_client params"
  let ?f = "f name_client directory_view table_id params"
  let ?st0 = "\<lparr>config_out =
                 config0\<lparr>shards := resize (num_shards params) new_shard (shards config0)\<rparr>,
               replicas_wanted = 0, plan_yielder = y1\<rparr>"
  let ?names = "get_servers_with_tag name_client tag"
  have "tag \<in> fst ` set (num_replicas params)" using tags by force
  then have at: "map_at ?swt tag = Inr ?names"
    by (simp add: map_at_def snapshot_tags_lookup)
  have cnt: "cnt \<noteq> 0" using too_few by auto
  have pt: "place_tag env ops table_id (directory_metadata ?f) server_usage params shard_scheme
              ?swt tag cnt st
            = Inr (Some (too_few_servers_message cnt tag (length ?names)),
                   st\<lparr>replicas_wanted := replicas_wanted st + cnt\<rparr>)"
    using at too_few by (rule place_tag_too_few)
  have "place_tags env ops table_id (directory_metadata ?f) server_usage params shard_scheme
          ?swt (num_replicas params) ?st0
        = Inr (Some (too_few_servers_message cnt tag (length ?names)),
               st\<lparr>replicas_wanted := replicas_wanted st + cnt\<rparr>)"
    unfolding tags place_tags_append earlier
    using cnt pt by simp
  then have "table_generate_config env ops name_client table_id directory_view server_usage
               params shard_scheme config0 error0
             = Inr (False, config_out st, too_few_servers_message cnt tag (length ?names))"
    using valid fetched yielded
    by (simp add: table_generate_config_def Let_def f_def)
  moreover have "length (shards (config_out ?st0)) = num_shards params"
    by (simp add: resize_def)
  from place_tags_result(2) [OF earlier this]
  have "length (shards (config_out st)) = num_shards params" .
  ultimately show ?thesis by simp
qed


theorem insufficient_servers_keeps_placements_witness:
  "table_generate_config calm_env key_set_ops two_tag_client nil_uuid (\<lambda>p. None) (\<lambda>n. None)
     two_tag_params (\<lambda>sh. {sh}) \<lparr>shards = []\<rparr> []
   = Inr (False, half_planned, too_few_servers_message 2 ''b'' 1)
   \<and> length (shards half_planned) = num_shards two_tag_params"
proof -
  let ?st = "\<lparr>config_out = half_planned, replicas_wanted = 1,
              plan_yielder = advance calm_env (advance calm_env (advance calm_env
                (advance calm_env (new_yielder calm_env))))\<rparr>"
  have calm: "\<And>k. \<not> is_pulsed calm_env k" by (simp add: calm_env_def)
  have "table_generate_config calm_env key_set_ops two_tag_client nil_uuid (\<lambda>p. None) (\<lambda>n. None)
     two_tag_params (\<lambda>sh. {sh}) \<lparr>shards = []\<rparr> []
   = Inr (False, config_out ?st,
          too_few_servers_message 2 ''b'' (length (get_servers_with_tag two_tag_client ''b'')))
   \<and> length (shards (config_out ?st)) = num_shards two_tag_params"
  proof (rule insufficient_servers_keeps_placements
           [where earlier = "[(''a'', 1)]" and later = "[]"
              and ?y1.0 = "advance calm_env (new_yielder calm_env)"])
    show "validate_params two_tag_params (snapshot_tags two_tag_client two_tag_params) = Inr None"
      by (simp add: validate_params_def snapshot_tags_def two_tag_params_def two_tag_client_def
            max_shards_def map_at_def)
    show "maybe_yield calm_env (new_yielder calm_env) = Inr (advance calm_env (new_yielder calm_env))"
      using calm by (rule maybe_yield_advance)
    show "num_replicas two_tag_params = [(''a'', 1)] @ [(''b'', 2)]"
      by (simp add: two_tag_params_def)
    show "length (get_servers_with_tag two_tag_client ''b'') < 2"
      by (simp add: two_tag_client_def)
    show "place_tags calm_env key_set_ops nil_uuid
            (directory_metadata
              (if nil_uuid \<noteq> nil_uuid
               then fetch_directory two_tag_client (\<lambda>p. None) nil_uuid
                      (snapshot_tags two_tag_client two_tag_params) no_fetch
               else no_fetch))
            (\<lambda>n. None) two_tag_params (\<lambda>sh. {sh})
            (snapshot_tags two_tag_client two_tag_params) [(''a'', 1)]
            \<lparr>config_out =
               \<lparr>shards = []\<rparr>\<lparr>shards :=
                 resize (num_shards two_tag_params) new_shard (shards \<lparr>shards = []\<rparr>)\<rparr>,
             replicas_wanted = 0,
             plan_yielder = advance calm_env (new_yielder calm_env)\<rparr> = Inr (None, ?st)"
      using calm
      by (simp add: planner_defs two_tag_params_def two_tag_client_def half_planned_def)
  qed (simp_all add: no_fetch_def)
  then show ?thesis by (simp add: two_tag_client_def)
qed

section \<open>Determinism\<close>

lemma rel_sum_cases [consumes 1, case_names Inl Inr]:
  assumes "rel_sum R1 R2 x y"
  obtains (Inl) a c where "x = Inl a" "y = Inl c" "R1 a c"
    | (Inr) b d where "x = Inr b" "y = Inr d" "R2 b d"
  using assms by (cases x; cases y) auto

lemma maybe_yield_clock:
  assumes "is_pulsed env1 = is_pulsed env2" and "same_polls y1 y2"
  shows "rel_sum (=) same_polls (maybe_yield env1 y1) (maybe_yield env2 y2)"
  using assms by (simp add: maybe_yield_def same_polls_def Let_def)

lemma place_if_room_clock:
  assumes "same_data s1 s2"
  shows "rel_sum (=) (\<lambda>p1 p2. same_data (fst p1) (fst p2) \<and> snd p1 = snd p2
                        \<and> yielder (fst p1) = yielder s1 \<and> yielder (fst p2) = yielder s2)
           (place_if_room cap usage cb s1 sp p) (place_if_room cap usage cb s2 sp p)"
proof (cases "shard_replicas s1 ! shard p < cap")
  case True
  then show ?thesis
    using assms
    by (cases "cb (shard p) (server sp) (cb_state s1)")
       (simp_all add: place_if_room_def same_data_def)
next
  case False
  then show ?thesis
    using assms by (simp add: place_if_room_def same_data_def)
qed

lemma pick_body_clock:
  assumes env: "is_pulsed env1 = is_pulsed env2" and s: "same_data s1 s2"
  shows "rel_sum (=) same_data (pick_body env1 cap usage cb s1) (pick_body env2 cap usage cb s2)"
proof (cases "remaining s1")
  case Nil
  with s show ?thesis by (simp add: pick_body_def same_data_def)
next
  case (Cons sp rest)
  with s have r: "remaining s1 = sp # rest" "remaining s2 = sp # rest"
    by (simp_all add: same_data_def)
  show ?thesis
  proof (cases "pairings sp")
    case Nil
    with r show ?thesis by (simp add: pick_body_def)
  next
    case (Cons p ps)
    note p = Cons
    show ?thesis
    proof (cases "shard p \<ge> length (shard_replicas s1)")
      case True
      with s r p show ?thesis by (simp add: pick_body_def same_data_def)
    next
      case False
      with s have inr: "\<not> shard p \<ge> length (shard_replicas s1)"
        "\<not> shard p \<ge> length (shard_replicas s2)" by (simp_all add: same_data_def)
      from place_if_room_clock [OF s, of cap usage cb sp p] show ?thesis
      proof (cases rule: rel_sum_cases)
        case (Inl e1 e2)
        with r p inr show ?thesis by (simp add: pick_body_def)
      next
        case (Inr p1 p2)
        note pl = Inr
        show ?thesis
        proof (cases "put_back (snd p1) ps rest")
          case (Inl e)
          with r p inr pl show ?thesis by (simp add: pick_body_def)
        next
          case (Inr prs)
          note pb = Inr
          from pl(3) s have "same_polls (yielder (fst p1)) (yielder (fst p2))"
            by (simp add: same_data_def)
          from maybe_yield_clock [OF env this] show ?thesis
          proof (cases rule: rel_sum_cases)
            case (Inl e1 e2)
            with r p inr pl pb show ?thesis by (simp add: pick_body_def)
          next
            case (Inr y1 y2)
            with r p inr pl pb show ?thesis
              by (simp add: pick_body_def same_data_def)
          qed
        qed
      qed
    qed
  qed
qed

lemma pick_loop_more:
  "total_replicas s < n * cap \<Longrightarrow>
     pick_loop env n cap usage cb s =
       (case pick_body env cap usage cb s of
          Inl e \<Rightarrow> Inl e
        | Inr s' \<Rightarrow> pick_loop env n cap usage cb s')"
  by (subst pick_loop.simps) simp

lemma pick_loop_done:
  "\<not> total_replicas s < n * cap \<Longrightarrow> pick_loop env n cap usage cb s = Inr s"
  by (subst pick_loop.simps) simp

lemma pick_loop_clock:
  assumes "is_pulsed env1 = is_pulsed env2" and "same_data s1 s2"
  shows "rel_sum (=) same_data (pick_loop env1 n cap usage cb s1) (pick_loop env2 n cap usage cb s2)"
  using assms
proof (induction env1 n cap usage cb s1 arbitrary: s2 rule: pick_loop.induct)
  case (1 env1 n cap usage cb s1)
  from "1.prems"(2) have tot: "total_replicas s2 = total_replicas s1"
    by (simp add: same_data_def)
  show ?case
  proof (cases "total_replicas s1 < n * cap")
    case True
    from pick_body_clock [OF "1.prems", of cap usage cb] show ?thesis
    proof (cases rule: rel_sum_cases)
      case (Inl e1 e2)
      with True tot show ?thesis
        by (simp add: pick_loop_more)
    next
      case (Inr t1 t2)
      from "1.IH" [OF True Inr(1) "1.prems"(1) Inr(3)] Inr(1,2) True tot show ?thesis
        by (simp add: pick_loop_more)
    qed
  next
    case False
    with tot "1.prems"(2) show ?thesis
      by (simp add: pick_loop_done)
  qed
qed

lemma pick_best_pairings_clock:
  assumes "is_pulsed env1 = is_pulsed env2" and "same_polls y1 y2"
  shows "rel_sum (=) (\<lambda>r1 r2. fst r1 = fst r2 \<and> same_polls (snd r1) (snd r2))
           (pick_best_pairings env1 n cap prs usage y1 cb st)
           (pick_best_pairings env2 n cap prs usage y2 cb st)"
proof -
  let ?s = "\<lambda>y. \<lparr>shard_replicas = replicate n 0, total_replicas = 0, remaining = prs,
                 cb_state = st, yielder = y\<rparr>"
  have "same_data (?s y1) (?s y2)" using assms(2) by (simp add: same_data_def)
  from pick_loop_clock [OF assms(1) this, of n cap usage cb] show ?thesis
    by (cases rule: rel_sum_cases) (simp_all add: pick_best_pairings_def same_data_def)
qed

lemma tag_pairings_clock:
  assumes "is_pulsed env1 = is_pulsed env2" and "same_polls y1 y2"
  shows "rel_sum (=) (\<lambda>r1 r2. fst r1 = fst r2 \<and> same_polls (snd r1) (snd r2))
           (tag_pairings env1 ops table_id dm usage params scheme names pmap y1)
           (tag_pairings env2 ops table_id dm usage params scheme names pmap y2)"
  using assms(2)
proof (induction names arbitrary: pmap y1 y2)
  case Nil
  then show ?case by simp
next
  case (Cons name names)
  show ?case
  proof (cases "server_pairings_of ops table_id dm usage params scheme name")
    case (Inl e)
    then show ?thesis by simp
  next
    case (Inr sp)
    from maybe_yield_clock [OF assms(1) Cons.prems] show ?thesis
    proof (cases rule: rel_sum_cases)
      case (Inl e1 e2)
      with Inr show ?thesis by simp
    next
      case (Inr z1 z2)
      with Cons.IH [OF Inr(3), of "map_assign name sp pmap"]
        \<open>server_pairings_of ops table_id dm usage params scheme name = Inr sp\<close>
      show ?thesis by simp
    qed
  qed
qed


lemma director_phase_clock:
  assumes "is_pulsed env1 = is_pulsed env2" and "same_polls y1 y2"
  shows "rel_sum (=) (\<lambda>d1 d2. fst d1 = fst d2 \<and> fst (snd d1) = fst (snd d2)
                        \<and> same_polls (snd (snd d1)) (snd (snd d2)))
           (director_phase env1 params y1 config pmap)
           (director_phase env2 params y2 config pmap)"
proof (cases "collect_pairings pmap []")
  case (Inl e)
  then show ?thesis by (simp add: director_phase_def)
next
  case (Inr s)
  from pick_best_pairings_clock [OF assms, of "num_shards params" 1 s PRIMARY_USAGE_COST
         director_callback "(config, pmap)"]
  show ?thesis
    by (cases rule: rel_sum_cases) (simp_all add: director_phase_def Inr)
qed

lemma replica_phase_clock:
  assumes "is_pulsed env1 = is_pulsed env2" and "same_polls y1 y2"
  shows "rel_sum (=) (\<lambda>r1 r2. fst r1 = fst r2 \<and> same_polls (snd r1) (snd r2))
           (replica_phase env1 params cap y1 config pmap)
           (replica_phase env2 params cap y2 config pmap)"
proof (cases "collect_pairings pmap []")
  case (Inl e)
  then show ?thesis by (simp add: replica_phase_def)
next
  case (Inr s)
  from pick_best_pairings_clock [OF assms, of "num_shards params" cap s SECONDARY_USAGE_COST
         replica_callback config]
  show ?thesis
    by (simp add: replica_phase_def Inr)
qed

lemma place_tag_clock:
  assumes env: "is_pulsed env1 = is_pulsed env2" and st: "same_plan st1 st2"
  shows "rel_sum (=) (\<lambda>r1 r2. fst r1 = fst r2 \<and> same_plan (snd r1) (snd r2))
           (place_tag env1 ops table_id dm usage params scheme swt tag cnt st1)
           (place_tag env2 ops table_id dm usage params scheme swt tag cnt st2)"
proof (cases "map_at swt tag")
  case (Inl e)
  then show ?thesis by (simp add: place_tag_def)
next
  case (Inr names)
  note n = Inr
  from st have cfg: "config_out st2 = config_out st1"
    and wanted: "replicas_wanted st2 = replicas_wanted st1"
    and ys: "same_polls (plan_yielder st1) (plan_yielder st2)"
    by (simp_all add: same_plan_def)
  show ?thesis
  proof (cases "length names < cnt")
    case True
    with n st show ?thesis by (simp add: place_tag_def same_plan_def)
  next
    case False
    note enough = False
    from tag_pairings_clock [OF env ys, of ops table_id dm usage params scheme names "[]"]
    show ?thesis
    proof (cases rule: rel_sum_cases)
      case (Inl e1 e2)
      with n enough show ?thesis by (simp add: place_tag_def)
    next
      case (Inr b1 b2)
      then obtain pmap z1 z2 where b: "b1 = (pmap, z1)" "b2 = (pmap, z2)" "same_polls z1 z2"
        by (cases b1; cases b2) auto
      note t1 = Inr(1) [unfolded b] and t2 = Inr(2) [unfolded b]
      have "\<exists>e. (if tag = director_tag params
                  then director_phase env1 params z1 (config_out st1) pmap
                  else Inr (config_out st1, pmap, z1)) = Inl e
               \<and> (if tag = director_tag params
                  then director_phase env2 params z2 (config_out st1) pmap
                  else Inr (config_out st1, pmap, z2)) = Inl e
             \<or> (\<exists>config1 pmap1 w1 w2.
                  (if tag = director_tag params
                   then director_phase env1 params z1 (config_out st1) pmap
                   else Inr (config_out st1, pmap, z1)) = Inr (config1, pmap1, w1)
                \<and> (if tag = director_tag params
                   then director_phase env2 params z2 (config_out st1) pmap
                   else Inr (config_out st1, pmap, z2)) = Inr (config1, pmap1, w2)
                \<and> same_polls w1 w2)"
      proof (cases "tag = director_tag params")
        case True
        from director_phase_clock [OF env b(3), of params "config_out st1" pmap] show ?thesis
        proof (cases rule: rel_sum_cases)
          case (Inl e1 e2)
          with True show ?thesis by simp
        next
          case (Inr d1 d2)
          then obtain config1 pmap1 w1 w2 where
            "d1 = (config1, pmap1, w1)" "d2 = (config1, pmap1, w2)" "same_polls w1 w2"
            by (cases d1; cases d2) auto
          with Inr(1,2) True show ?thesis by simp
        qed
      next
        case False
        with b(3) show ?thesis by simp
      qed
      then show ?thesis
      proof (elim disjE exE conjE)
        fix e
        assume "(if tag = director_tag params
                  then director_phase env1 params z1 (config_out st1) pmap
                  else Inr (config_out st1, pmap, z1)) = Inl e"
               "(if tag = director_tag params
                  then director_phase env2 params z2 (config_out st1) pmap
                  else Inr (config_out st1, pmap, z2)) = Inl e"
        with n enough t1 t2 cfg show ?thesis
          by (simp add: place_tag_def split: if_splits)
      next
        fix config1 pmap1 w1 w2
        assume d: "(if tag = director_tag params
                   then director_phase env1 params z1 (config_out st1) pmap
                   else Inr (config_out st1, pmap, z1)) = Inr (config1, pmap1, w1)"
                "(if tag = director_tag params
                   then director_phase env2 params z2 (config_out st1) pmap
                   else Inr (config_out st1, pmap, z2)) = Inr (config1, pmap1, w2)"
          and w: "same_polls w1 w2"
        from replica_phase_clock [OF env w, of params
               "cnt - (if tag = director_tag params then 1 else 0)" config1 pmap1]
        show ?thesis
        proof (cases rule: rel_sum_cases)
          case (Inl e1 e2)
          with n enough t1 t2 cfg d show ?thesis
            by (simp add: place_tag_def split: if_splits)
        next
          case (Inr p1 p2)
          with n enough t1 t2 cfg wanted d show ?thesis
            by (simp add: place_tag_def same_plan_def split: if_splits)
        qed
      qed
    qed
  qed
qed

lemma place_tags_clock:
  assumes env: "is_pulsed env1 = is_pulsed env2" and st: "same_plan st1 st2"
  shows "rel_sum (=) (\<lambda>r1 r2. fst r1 = fst r2 \<and> same_plan (snd r1) (snd r2))
           (place_tags env1 ops table_id dm usage params scheme swt reps st1)
           (place_tags env2 ops table_id dm usage params scheme swt reps st2)"
  using st
proof (induction reps arbitrary: st1 st2)
  case Nil
  then show ?case by simp
next
  case (Cons x reps)
  show ?case
  proof (cases "snd x = 0")
    case True
    with Cons.IH [OF Cons.prems] show ?thesis by simp
  next
    case False
    from place_tag_clock [OF env Cons.prems, of ops table_id dm usage params scheme swt
           "fst x" "snd x"]
    show ?thesis
    proof (cases rule: rel_sum_cases)
      case (Inl e1 e2)
      with False show ?thesis by simp
    next
      case (Inr r1 r2)
      obtain m t1 where r1: "r1 = (m, t1)" by (cases r1)
      with Inr(3) obtain t2 where r2: "r2 = (m, t2)" and t: "same_plan t1 t2"
        by (cases r2) auto
      show ?thesis
      proof (cases m)
        case None
        with Cons.IH [OF t] False Inr(1,2) r1 r2 show ?thesis by simp
      next
        case (Some msg)
        with False Inr(1,2) r1 r2 t show ?thesis by simp
      qed
    qed
  qed
qed

text \<open>The clock has no influence on the result.\<close>

lemma plan_independent_of_clock:
  "table_generate_config \<lparr>get_ticks = clock1, is_pulsed = interruptor\<rparr> ops name_client
     table_id directory_view server_usage params shard_scheme config0 error0
   = table_generate_config \<lparr>get_ticks = clock2, is_pulsed = interruptor\<rparr> ops name_client
       table_id directory_view server_usage params shard_scheme config0 error0"
proof -
  let ?env1 = "\<lparr>get_ticks = clock1, is_pulsed = interruptor\<rparr>"
  let ?env2 = "\<lparr>get_ticks = clock2, is_pulsed = interruptor\<rparr>"
  let ?swt = "snapshot_tags name_client params"
  let ?f = "if table_id \<noteq> nil_uuid
            then fetch_directory name_client directory_view table_id ?swt no_fetch
            else no_fetch"
  have env: "is_pulsed ?env1 = is_pulsed ?env2" by simp
  have y0: "same_polls (new_yielder ?env1) (new_yielder ?env2)"
    by (simp add: same_polls_def new_yielder_def)
  show ?thesis
  proof (cases "validate_params params ?swt")
    case (Inl e)
    then show ?thesis by (simp add: table_generate_config_def)
  next
    case (Inr m)
    note v = Inr
    show ?thesis
    proof (cases m)
      case (Some msg)
      with v show ?thesis by (simp add: table_generate_config_def)
    next
      case None
      note valid = None
      show ?thesis
      proof (cases "missing ?f = [] \<and> colliding ?f = []")
        case False
        with v valid show ?thesis
          by (auto simp: table_generate_config_def Let_def)
      next
        case True
        from maybe_yield_clock [OF env y0] show ?thesis
        proof (cases rule: rel_sum_cases)
          case (Inl e1 e2)
          with v valid True show ?thesis by (simp add: table_generate_config_def Let_def)
        next
          case (Inr y1 y2)
          note y = Inr
          let ?st = "\<lambda>y. \<lparr>config_out =
                             config0\<lparr>shards := resize (num_shards params) new_shard (shards config0)\<rparr>,
                          replicas_wanted = 0, plan_yielder = y\<rparr>"
          have "same_plan (?st y1) (?st y2)" using y(3) by (simp add: same_plan_def)
          from place_tags_clock [OF env this, of ops table_id "directory_metadata ?f"
                 server_usage params shard_scheme ?swt "num_replicas params"]
          show ?thesis
          proof (cases rule: rel_sum_cases)
            case (Inl e1 e2)
            with v valid True y show ?thesis by (simp add: table_generate_config_def Let_def)
          next
            case (Inr r1 r2)
            obtain mm t1 where r1: "r1 = (mm, t1)" by (cases r1)
            with Inr(3) obtain t2 where r2: "r2 = (mm, t2)" and t: "same_plan t1 t2"
              by (cases r2) auto
            from t have "config_out t1 = config_out t2" "replicas_wanted t1 = replicas_wanted t2"
              by (simp_all add: same_plan_def)
            with v valid True y Inr(1,2) r1 r2 show ?thesis
              by (cases mm;
                  cases "check_shards (config_out t2) (replicas_wanted t2) [0..<num_shards params]")
                 (simp_all add: table_generate_config_def Let_def)
          qed
        qed
      qed
    qed
  qed
qed


text \<open>The name client is read through the snapshot of the tags and, for the directory,
  through its map of machine ids and its peers.\<close>

lemma fetch_server_client:
  assumes "get_name_to_machine_id_map client1 = get_name_to_machine_id_map client2"
    and "get_peer_id_for_machine_id client1 = get_peer_id_for_machine_id client2"
  shows "fetch_server client1 directory_view table_id name f
         = fetch_server client2 directory_view table_id name f"
  unfolding fetch_server_def assms ..

lemma fetch_servers_client:
  assumes "get_name_to_machine_id_map client1 = get_name_to_machine_id_map client2"
    and "get_peer_id_for_machine_id client1 = get_peer_id_for_machine_id client2"
  shows "fetch_servers client1 directory_view table_id names f
         = fetch_servers client2 directory_view table_id names f"
  by (induction names arbitrary: f) (simp_all add: fetch_server_client [OF assms])

lemma fetch_directory_client:
  assumes "get_name_to_machine_id_map client1 = get_name_to_machine_id_map client2"
    and "get_peer_id_for_machine_id client1 = get_peer_id_for_machine_id client2"
  shows "fetch_directory client1 directory_view table_id swt f
         = fetch_directory client2 directory_view table_id swt f"
proof (induction swt arbitrary: f)
  case Nil
  then show ?case by simp
next
  case (Cons x swt)
  obtain tag names where "x = (tag, names)" by (cases x)
  then show ?case by (simp add: Cons.IH fetch_servers_client [OF assms])
qed

text \<open>
  C9. The planner is deterministic. Take two runs on identical inputs: the same snapshot
  of the tag membership and the same machine ids and peers from the name client, the
  same directory, usage map, parameters, shard scheme and table id, the same content of
  \<open>config_out\<close> and \<open>error_out\<close> at the call, and the same answers of the interruptor at
  the polls. Ties between equivalent pairings and server pairings are broken by the
  insertion order of the multisets, which these inputs determine. Then both runs return
  the same value with the same configuration and message, or fail in the same way,
  whatever the clock reads in either run and whatever the name client answers for tags
  that are not in the snapshot.
\<close>

theorem plan_deterministic:
  assumes "snapshot_tags client1 params = snapshot_tags client2 params"
    and "get_name_to_machine_id_map client1 = get_name_to_machine_id_map client2"
    and "get_peer_id_for_machine_id client1 = get_peer_id_for_machine_id client2"
  shows "table_generate_config \<lparr>get_ticks = clock1, is_pulsed = interruptor\<rparr> ops client1
           table_id directory_view server_usage params shard_scheme config0 error0
         = table_generate_config \<lparr>get_ticks = clock2, is_pulsed = interruptor\<rparr> ops client2
             table_id directory_view server_usage params shard_scheme config0 error0"
proof -
  have "table_generate_config \<lparr>get_ticks = clock1, is_pulsed = interruptor\<rparr> ops client1
           table_id directory_view server_usage params shard_scheme config0 error0
        = table_generate_config \<lparr>get_ticks = clock1, is_pulsed = interruptor\<rparr> ops client2
           table_id directory_view server_usage params shard_scheme config0 error0"
    unfolding table_generate_config_def assms(1) fetch_directory_client [OF assms(2,3)] ..
  then show ?thesis
    using plan_independent_of_clock [of clock1 interruptor ops client2 table_id directory_view
            server_usage params shard_scheme config0 error0 clock2]
    by simp
qed

theorem plan_deterministic_witness:
  "snapshot_tags abc_client s2_params = snapshot_tags other_client s2_params
   \<and> get_servers_with_tag abc_client \<noteq> get_servers_with_tag other_client
   \<and> table_generate_config \<lparr>get_ticks = (\<lambda>k. 0), is_pulsed = (\<lambda>k. False)\<rparr> key_set_ops
         abc_client nil_uuid (\<lambda>p. None) (\<lambda>n. None) s2_params (\<lambda>sh. {sh}) \<lparr>shards = []\<rparr> []
     = table_generate_config \<lparr>get_ticks = (\<lambda>k. 20000000 * k), is_pulsed = (\<lambda>k. False)\<rparr>
         key_set_ops other_client nil_uuid (\<lambda>p. None) (\<lambda>n. None) s2_params (\<lambda>sh. {sh})
         \<lparr>shards = []\<rparr> []"
proof -
  have snap: "snapshot_tags abc_client s2_params = snapshot_tags other_client s2_params"
    by (simp add: snapshot_tags_def abc_client_def other_client_def s2_params_def)
  have differ: "get_servers_with_tag abc_client \<noteq> get_servers_with_tag other_client"
    by (auto simp: abc_client_def other_client_def fun_eq_iff intro!: exI [of _ "''x''"])
  from plan_deterministic [OF snap, of "\<lambda>k. 0" "\<lambda>k. False" key_set_ops nil_uuid "\<lambda>p. None"
         "\<lambda>n. None" "\<lambda>sh. {sh}" "\<lparr>shards = []\<rparr>" "[]" "\<lambda>k. 20000000 * k"]
       snap differ
  show ?thesis by (simp add: abc_client_def other_client_def)
qed


section \<open>The cost estimator\<close>

lemma activity_cost_table: "of_int (activity_cost a) = cost_table a"
  by (cases a) (simp_all add: activity_cost_def cost_table_def)

lemma cost_table_range: "0 \<le> cost_table a \<and> cost_table a \<le> 3"
  by (simp add: cost_table_def)

lemma represents_cong:
  assumes "represents keys m D f" and "\<forall>k \<in> D. f k = g k"
  shows "represents keys m D g"
  using assms unfolding represents_def by fastforce

lemma non_overlapping_Cons:
  assumes "non_overlapping keys (a # as)"
  shows "non_overlapping keys as" and "\<forall>b \<in> set as. keys (region a) \<inter> keys (region b) = {}"
proof -
  show "non_overlapping keys as"
    unfolding non_overlapping_def
  proof (intro allI impI)
    fix i j assume "i < length as" "j < length as" "i \<noteq> j"
    with assms [unfolded non_overlapping_def, rule_format, of "Suc i" "Suc j"]
    show "keys (region (as ! i)) \<inter> keys (region (as ! j)) = {}" by simp
  qed
  show "\<forall>b \<in> set as. keys (region a) \<inter> keys (region b) = {}"
  proof
    fix b assume "b \<in> set as"
    then obtain j where "j < length as" "as ! j = b" by (auto simp: in_set_conv_nth)
    with assms [unfolded non_overlapping_def, rule_format, of 0 "Suc j"]
    show "keys (region a) \<inter> keys (region b) = {}" by simp
  qed
qed

lemma find_None_disjoint:
  assumes "\<forall>b \<in> set as. keys (region a) \<inter> keys (region b) = {}" and "k \<in> keys (region a)"
  shows "find (\<lambda>b. k \<in> keys (region b)) as = None"
  using assms by (auto simp: find_None_iff)

lemma set_costs_represents:
  assumes model: "region_model ops keys"
    and "represents keys costs (keys target) f"
    and "non_overlapping keys as"
  shows "represents keys (set_costs ops target as costs) (keys target)
           (\<lambda>k. case find (\<lambda>a. k \<in> keys (region a)) as of
                   None \<Rightarrow> f k
                 | Some a \<Rightarrow> cost_table (activity a))"
  using assms(2,3)
proof (induction as arbitrary: costs f)
  case Nil
  then show ?case by simp
next
  case (Cons a as)
  let ?i = "region_intersection ops (region a) target"
  let ?h = "\<lambda>k. if k \<in> keys ?i then cost_table (activity a) else f k"
  from model have inter: "keys ?i = keys (region a) \<inter> keys target"
    and empty: "region_is_empty ops ?i \<longleftrightarrow> keys ?i = {}"
    by (simp_all add: region_model_def)
  note rest = non_overlapping_Cons [OF Cons.prems(2)]
  have step: "represents keys
                (if \<not> region_is_empty ops ?i
                 then region_map_set ops costs ?i (of_int (activity_cost (activity a)))
                 else costs) (keys target) ?h"
  proof (cases "region_is_empty ops ?i")
    case True
    with empty have "keys ?i = {}" by simp
    with Cons.prems(1) True show ?thesis by simp
  next
    case False
    with empty have ne: "keys ?i \<noteq> {}" by simp
    have sub: "keys ?i \<subseteq> keys target" using inter by simp
    from model Cons.prems(1) ne sub
    have "represents keys (region_map_set ops costs ?i (cost_table (activity a)))
            (keys target) ?h"
      unfolding region_model_def by blast
    with False show ?thesis by (simp add: activity_cost_table)
  qed
  have "represents keys (set_costs ops target (a # as) costs) (keys target)
          (\<lambda>k. case find (\<lambda>b. k \<in> keys (region b)) as of
                  None \<Rightarrow> ?h k
                | Some b \<Rightarrow> cost_table (activity b))"
  proof -
    have "set_costs ops target (a # as) costs
            = set_costs ops target as
                (if \<not> region_is_empty ops ?i
                 then region_map_set ops costs ?i (of_int (activity_cost (activity a)))
                 else costs)"
      by (simp add: Let_def)
    with Cons.IH [OF step rest(1)] show ?thesis by simp
  qed
  then show ?case
  proof (rule represents_cong)
    show "\<forall>k \<in> keys target.
            (case find (\<lambda>b. k \<in> keys (region b)) as of
               None \<Rightarrow> ?h k
             | Some b \<Rightarrow> cost_table (activity b))
          = (case find (\<lambda>b. k \<in> keys (region b)) (a # as) of
               None \<Rightarrow> f k
             | Some b \<Rightarrow> cost_table (activity b))"
    proof
      fix k assume k: "k \<in> keys target"
      show "(case find (\<lambda>b. k \<in> keys (region b)) as of
               None \<Rightarrow> ?h k
             | Some b \<Rightarrow> cost_table (activity b))
          = (case find (\<lambda>b. k \<in> keys (region b)) (a # as) of
               None \<Rightarrow> f k
             | Some b \<Rightarrow> cost_table (activity b))"
      proof (cases "k \<in> keys (region a)")
        case True
        from find_None_disjoint [OF rest(2) True] True k inter show ?thesis by simp
      next
        case False
        with inter show ?thesis by simp
      qed
    qed
  qed
qed

lemma sum_count_eq:
  "sum_count m acc cnt = (acc + sum_list (map snd m), cnt + int (length m))"
  by (induction m arbitrary: acc cnt) simp_all

lemma represents_values:
  assumes "represents keys m D (key_cost keys business_card)"
  shows "\<forall>piece \<in> set m. 0 \<le> snd piece \<and> snd piece \<le> 3"
proof
  fix piece assume p: "piece \<in> set m"
  with assms obtain k where "k \<in> keys (fst piece)" "snd piece = key_cost keys business_card k"
    unfolding represents_def by fastforce
  then show "0 \<le> snd piece \<and> snd piece \<le> 3"
    using cost_table_range by (simp add: key_cost_def split: option.splits)
qed

lemma sum_list_bounds:
  "\<forall>x \<in> set xs. 0 \<le> x \<and> x \<le> (3::real) \<Longrightarrow>
     0 \<le> sum_list xs \<and> sum_list xs \<le> 3 * real (length xs)"
  by (induction xs) (auto simp: algebra_simps)

text \<open>
  C8. Let the region operations behave as operations on sets of keys (\<open>region_model\<close>),
  the regions of the activities not overlap and the target range not be empty. Then the
  map the estimator builds is a piecewise-constant map on the target range: its pieces
  are not empty, cover the target range, and each carries on all of its keys the cost of
  the spec's table for the activity whose region holds the key, 3 where there is none.
  The estimator returns the unweighted mean of the values of the pieces, and the result
  lies between 0 and 3. (The mean is taken in the reals; the machine rounds the final
  division to a double, which stays in the interval.)
\<close>

theorem estimate_is_mean_of_pieces:
  assumes model: "region_model ops keys"
    and apart: "non_overlapping keys business_card"
    and target: "keys target \<noteq> {}"
  shows "represents keys (set_costs ops target business_card (new_region_map target 3))
           (keys target) (key_cost keys business_card)
         \<and> estimate_cost_to_get_up_to_date ops business_card target
             = Inr (sum_list (map snd (set_costs ops target business_card
                                         (new_region_map target 3)))
                    / real (length (set_costs ops target business_card
                                      (new_region_map target 3))))
         \<and> (\<exists>c. estimate_cost_to_get_up_to_date ops business_card target = Inr c
                \<and> 0 \<le> c \<and> c \<le> 3)"
proof -
  let ?m = "set_costs ops target business_card (new_region_map target 3)"
  have "represents keys (new_region_map target 3) (keys target) (\<lambda>k. 3)"
    using target by (simp add: represents_def new_region_map_def)
  from set_costs_represents [OF model this apart]
  have rep: "represents keys ?m (keys target) (key_cost keys business_card)"
    by (simp add: key_cost_def [abs_def])
  with target have ne: "?m \<noteq> []"
    unfolding represents_def by auto
  have est: "estimate_cost_to_get_up_to_date ops business_card target
               = Inr (sum_list (map snd ?m) / real (length ?m))"
    using ne by (simp add: estimate_cost_to_get_up_to_date_def sum_count_eq Let_def)
  from represents_values [OF rep] have "\<forall>x \<in> set (map snd ?m). 0 \<le> x \<and> x \<le> 3" by simp
  from sum_list_bounds [OF this]
  have b: "0 \<le> sum_list (map snd ?m)" "sum_list (map snd ?m) \<le> 3 * real (length ?m)"
    by simp_all
  from ne have pos: "0 < real (length ?m)" by simp
  have "0 \<le> sum_list (map snd ?m) / real (length ?m)"
    using b(1) pos by simp
  moreover have "sum_list (map snd ?m) / real (length ?m) \<le> 3"
    using b(2) pos by (simp add: divide_le_eq)
  ultimately show ?thesis using rep est by simp
qed


lemma key_set_model: "region_model key_set_ops (\<lambda>r. r)"
proof -
  have "represents (\<lambda>r. r)
          (filter (\<lambda>piece. fst piece \<noteq> {}) (map (\<lambda>piece. (fst piece - r, snd piece)) m)
             @ [(r, v)]) D (\<lambda>k. if k \<in> r then v else f k)"
    if m: "represents (\<lambda>r. r) m D f" and r: "r \<noteq> {}" "r \<subseteq> D"
    for m :: "(nat set \<times> real) list" and D f r v
  proof -
    let ?new = "filter (\<lambda>piece. fst piece \<noteq> {}) (map (\<lambda>piece. (fst piece - r, snd piece)) m)
                  @ [(r, v)]"
    from m have pieces: "\<And>q w k. (q, w) \<in> set m \<Longrightarrow> k \<in> q \<Longrightarrow> w = f k"
      and cover: "(\<Union>piece \<in> set m. fst piece) = D"
      unfolding represents_def by fastforce+
    have elim: "piece = (r, v) \<or> (\<exists>q w. (q, w) \<in> set m \<and> q - r \<noteq> {} \<and> piece = (q - r, w))"
      if "piece \<in> set ?new" for piece
    proof (cases "piece = (r, v)")
      case True
      then show ?thesis ..
    next
      case False
      with that have "piece \<in> (\<lambda>piece. (fst piece - r, snd piece)) ` set m" "fst piece \<noteq> {}"
        by simp_all
      then obtain old where "old \<in> set m" "piece = (fst old - r, snd old)" by blast
      with \<open>fst piece \<noteq> {}\<close> have "(fst old, snd old) \<in> set m \<and> fst old - r \<noteq> {}
                \<and> piece = (fst old - r, snd old)" by simp
      then show ?thesis by blast
    qed
    have intro: "(q - r, w) \<in> set ?new" if "(q, w) \<in> set m" "q - r \<noteq> {}" for q w
      using that by force
    have one: "fst piece \<noteq> {} \<and> (\<forall>k \<in> fst piece. snd piece = (if k \<in> r then v else f k))"
      if "piece \<in> set ?new" for piece
      using elim [OF that] r(1) pieces by auto
    have two: "(\<Union>piece \<in> set ?new. fst piece) = D"
    proof (intro equalityI subsetI)
      fix k assume "k \<in> (\<Union>piece \<in> set ?new. fst piece)"
      then obtain piece where "piece \<in> set ?new" "k \<in> fst piece" by blast
      with elim [of piece] show "k \<in> D" using r(2) cover by auto
    next
      fix k assume k: "k \<in> D"
      show "k \<in> (\<Union>piece \<in> set ?new. fst piece)"
      proof (cases "k \<in> r")
        case True
        have "(r, v) \<in> set ?new" by simp
        with True show ?thesis by force
      next
        case False
        from k cover obtain q w where q: "(q, w) \<in> set m" "k \<in> q" by force
        with False have "q - r \<noteq> {}" "k \<in> q - r" by auto
        with q(1) have "(q - r, w) \<in> set ?new" by (intro intro)
        with \<open>k \<in> q - r\<close> show ?thesis by force
      qed
    qed
    from one two show ?thesis unfolding represents_def by blast
  qed
  then show ?thesis
    by (simp add: region_model_def key_set_ops_def)
qed

theorem estimate_is_mean_of_pieces_witness:
  "represents (\<lambda>r. r)
     (set_costs key_set_ops {0, 1, 2, 3} example_card (new_region_map {0, 1, 2, 3} 3))
     {0, 1, 2, 3} (key_cost (\<lambda>r. r) example_card)
   \<and> estimate_cost_to_get_up_to_date key_set_ops example_card {0, 1, 2, 3} = Inr (4 / 3)
   \<and> (\<exists>c. estimate_cost_to_get_up_to_date key_set_ops example_card {0, 1, 2, 3} = Inr c
          \<and> 0 \<le> c \<and> c \<le> 3)"
proof -
  have apart: "non_overlapping (\<lambda>r. r) example_card"
    by (auto simp: non_overlapping_def example_card_def nth_Cons' less_Suc_eq numeral_3_eq_3)
  have target: "({0, 1, 2, 3} :: nat set) \<noteq> {}" by simp
  have pieces: "set_costs key_set_ops {0, 1, 2, 3} example_card (new_region_map {0, 1, 2, 3} 3)
          = [({3}, 3), ({0, 1}, 0), ({2}, 1)]"
    by (simp add: example_card_def key_set_ops_def new_region_map_def activity_cost_def Let_def
          insert_Diff_if)
  note main = estimate_is_mean_of_pieces [OF key_set_model apart target]
  from main have "estimate_cost_to_get_up_to_date key_set_ops example_card {0, 1, 2, 3}
                   = Inr (4 / 3)"
    unfolding pieces by simp
  with main show ?thesis by blast
qed


section \<open>The backfill cost of the pairings of an existing table\<close>

text \<open>
  C2 (the code at the failing input). An existing table (table id 1) with two shards;
  the directory has an entry for the server \<open>A\<close>, which does nothing on the keys of both
  shards, and none for the server \<open>B\<close>. The estimator gives 3 for \<open>A\<close> on shard 0, and a
  server without entry is meant to get 3.0; but the test of line 358 sends an existing
  table to the branch for new tables, and every pairing of both servers gets the cost 0.
\<close>

theorem existing_table_pairings_cost_0:
  "server_pairings_of key_set_ops 1 [(''A'', [\<lparr>region = {0, 1}, activity = nothing_t\<rparr>])]
     (\<lambda>n. None) s4_params (\<lambda>sh. {sh}) ''A''
   = Inr \<lparr>self_usage_cost = 0,
          pairings = [\<lparr>backfill_cost = 0, shard = 0\<rparr>, \<lparr>backfill_cost = 0, shard = 1\<rparr>],
          other_usage_cost = 0, server = ''A''\<rparr>
   \<and> estimate_cost_to_get_up_to_date key_set_ops [\<lparr>region = {0, 1}, activity = nothing_t\<rparr>] {0}
       = Inr 3
   \<and> server_pairings_of key_set_ops 1 [(''A'', [\<lparr>region = {0, 1}, activity = nothing_t\<rparr>])]
         (\<lambda>n. None) s4_params (\<lambda>sh. {sh}) ''B''
       = Inr \<lparr>self_usage_cost = 0,
              pairings = [\<lparr>backfill_cost = 0, shard = 0\<rparr>, \<lparr>backfill_cost = 0, shard = 1\<rparr>],
              other_usage_cost = 0, server = ''B''\<rparr>"
  by (simp add: server_pairings_of_def pairing_backfill_cost_def nil_uuid_def s4_params_def
        pairing_less_def upt_rec eval_nat_numeral estimate_cost_to_get_up_to_date_def
        key_set_ops_def new_region_map_def activity_cost_def Let_def)

end
